theory Spec2Isabelle
  imports Main "HOL-Library.AList" "HOL-Library.Char_ord" "HOL-Library.List_Lexorder"
begin

section \<open>Strings\<close>

text \<open>
  A Go string is a sequence of bytes; it is modelled as a \<open>string\<close> (a list of
  \<open>char\<close>, each one byte).  \<open>strings.HasPrefix(s, prefix)\<close> is
  \<open>len(s) >= len(prefix) && s[:len(prefix)] == prefix\<close>.
\<close>

definition HasPrefix :: "string \<Rightarrow> string \<Rightarrow> bool" where
  "HasPrefix s pre = (length pre \<le> length s \<and> take (length pre) s = pre)"

section \<open>Process outcomes\<close>

text \<open>
  A Go call either returns, or the process panics or exits (\<open>os.Exit\<close>).  The two
  ways of not returning are values of \<open>abort\<close>; a fallible computation has the type
  \<open>abort + 'a\<close>, with \<open>Inl\<close> for the abort.
\<close>

datatype error =
    ErrNoArgs
  | ErrWrongType
  | ErrHelp
  | ErrBadFlagSyntax string
  | ErrNotDefined string
  | ErrInvalidBoolean string string
  | ErrNeedsArgument string
  | ErrInvalidValue string string

datatype panic =
    IndexOutOfRange
  | SliceBoundsOutOfRange
  | TypeOfZeroValue
  | NumFieldOfNonStruct
  | SetNotAssignable
  | FlagBeginsWithMinus string
  | FlagContainsEquals string
  | FlagRedefined string string
  | PanicOnErrorRaised error

datatype abort = Panic panic | OsExit int

section \<open>IdentifyCommand\<close>

text \<open>
  \<open>cmds\<close> is a \<open>map[string]bool\<close>.  It is modelled as an association list with
  distinct keys; \<open>for cmd := range cmds\<close> walks the keys in the order of the list (Go leaves
  the order open; the results below depend on the set of keys only).

  The inner loop of \<open>IdentifyCommand\<close>: it sets \<open>commandSeen\<close> and breaks on the first
  key equal to \<open>arg\<close>.
\<close>

type_synonym cmds = "(string \<times> bool) list"

fun range_cmds :: "cmds \<Rightarrow> string \<Rightarrow> bool \<Rightarrow> bool" where
  "range_cmds [] arg commandSeen = commandSeen"
| "range_cmds ((cmd, b) # rest) arg commandSeen =
     (if arg = cmd then True else range_cmds rest arg commandSeen)"

text \<open>
  The outer loop, over the remaining arguments, with the two loop variables
  \<open>(commandIndex, commandSeen)\<close> as state.
\<close>

fun IdentifyCommand_loop :: "cmds \<Rightarrow> string list \<Rightarrow> nat \<times> bool \<Rightarrow> nat \<times> bool" where
  "IdentifyCommand_loop cmds [] st = st"
| "IdentifyCommand_loop cmds (arg # args) (commandIndex, commandSeen) =
     (if commandSeen then (commandIndex, commandSeen)
      else if HasPrefix arg ''-'' then
        IdentifyCommand_loop cmds args (commandIndex + 1, commandSeen)
      else
        (let commandSeen' = range_cmds cmds arg commandSeen in
         if \<not> commandSeen' then IdentifyCommand_loop cmds args (commandIndex + 1, commandSeen')
         else IdentifyCommand_loop cmds args (commandIndex, commandSeen')))"

text \<open>
  \<open>args[commandIndex]\<close> panics in Go when the index is out of range; the model says so.
\<close>

definition IdentifyCommand :: "cmds \<Rightarrow> string list \<Rightarrow> abort + string" where
  "IdentifyCommand cmds args =
     (case IdentifyCommand_loop cmds args (0, False) of
        (commandIndex, commandSeen) \<Rightarrow>
          if \<not> commandSeen then Inr ''''
          else if commandIndex < length args then Inr (args ! commandIndex)
          else Inl (Panic IndexOutOfRange))"

section \<open>CommandFlags\<close>

text \<open>
  \<open>for i, v := range args { if v == cmd { return args[i+1:] } }; return []string{}\<close>.
  The loop runs over the elements still to visit, with the index \<open>i\<close> of the next one.
\<close>

fun CommandFlags_loop :: "string \<Rightarrow> string list \<Rightarrow> nat \<Rightarrow> string list \<Rightarrow> string list" where
  "CommandFlags_loop cmd args i [] = []"
| "CommandFlags_loop cmd args i (v # vs) =
     (if v = cmd then drop (i + 1) args else CommandFlags_loop cmd args (i + 1) vs)"

definition CommandFlags :: "string \<Rightarrow> string list \<Rightarrow> string list" where
  "CommandFlags cmd args = CommandFlags_loop cmd args 0 args"

section \<open>strings.ToLower\<close>

text \<open>
  \<open>strings.ToLower\<close> on ASCII text: the letters A to Z are mapped to a to z, every other
  byte is kept.  (Go lower-cases other Unicode letters too; the names of schema fields are
  taken to be ASCII here.)
\<close>

definition ToLower_char :: "char \<Rightarrow> char" where
  "ToLower_char c =
     (if CHR ''A'' \<le> c \<and> c \<le> CHR ''Z'' then char_of (of_char c + (32 :: nat)) else c)"

definition ToLower :: "string \<Rightarrow> string" where
  "ToLower s = map ToLower_char s"

section \<open>The schema, as package reflect shows it\<close>

text \<open>
  \<open>reflect.StructField\<close>: the field's name, its tag (a list of key and value pairs,
  \<open>Tag.Get\<close> gives the empty string for a missing key), whether it is exported
  (\<open>PkgPath == ""\<close>), and whether its type is a defined type (\<open>type T bool\<close>) rather
  than \<open>bool\<close>, \<open>int\<close> or \<open>string\<close> itself.
\<close>

record StructField =
  Name :: string
  Tag :: "(string \<times> string) list"
  exported :: bool
  defined_type :: bool

definition Tag_Get :: "(string \<times> string) list \<Rightarrow> string \<Rightarrow> string" where
  "Tag_Get tag key = (case map_of tag key of None \<Rightarrow> [] | Some v \<Rightarrow> v)"

text \<open>
  A value with its type: a struct is the list of its fields, each with its
  \<open>StructField\<close>; \<open>VOther\<close> stands for a value of any other kind (float, slice, map,
  pointer, ...).
\<close>

datatype Value =
    VBool bool
  | VInt int
  | VString string
  | VStruct "(StructField \<times> Value) list"
  | VOther

datatype Kind = reflect_Bool | reflect_Int | reflect_String | reflect_Struct | reflect_Other

fun Kind_of :: "Value \<Rightarrow> Kind" where
  "Kind_of (VBool b) = reflect_Bool"
| "Kind_of (VInt i) = reflect_Int"
| "Kind_of (VString s) = reflect_String"
| "Kind_of (VStruct fs) = reflect_Struct"
| "Kind_of VOther = reflect_Other"

text \<open>
  The flag bits of a \<open>reflect.Value\<close> that \<open>CanSet\<close> and \<open>CanInterface\<close> read:
  addressable, and read-only (obtained through an unexported field).  \<open>Field\<close> keeps the
  bits of the struct and adds read-only for an unexported field.
\<close>

record rflag =
  flagAddr :: bool
  flagRO :: bool

definition Field_flag :: "rflag \<Rightarrow> StructField \<Rightarrow> rflag" where
  "Field_flag fl sf = fl\<lparr>flagRO := (flagRO fl \<or> \<not> exported sf)\<rparr>"

definition CanSet :: "rflag \<Rightarrow> bool" where
  "CanSet fl = (flagAddr fl \<and> \<not> flagRO fl)"

definition CanInterface :: "rflag \<Rightarrow> bool" where
  "CanInterface fl = (\<not> flagRO fl)"

text \<open>
  What a callback of \<open>IterFields\<close> gets as \<open>field\<close>: the place of the field in the
  schema (for \<open>field.Set\<close>) and its kind (\<open>field.Kind()\<close>).
\<close>

datatype fieldref = Top nat | Nested nat nat

type_synonym 's callback =
  "fieldref \<Rightarrow> Kind \<Rightarrow> StructField \<Rightarrow> string list \<Rightarrow> 's \<Rightarrow> abort + 's"

section \<open>IterFields\<close>

text \<open>
  The inner loop (over the fields of a nested struct, field \<open>i\<close> of the schema): the
  callback is called with the command name for every settable field.  \<open>j\<close> is the index of
  the next field, \<open>s\<close> the state the callback works on.
\<close>

fun IterFields_nested ::
  "rflag \<Rightarrow> string \<Rightarrow> nat \<Rightarrow> nat \<Rightarrow> (StructField \<times> Value) list \<Rightarrow> 's callback \<Rightarrow> 's
     \<Rightarrow> abort + 's" where
  "IterFields_nested fl cmd i j [] callback s = Inr s"
| "IterFields_nested fl cmd i j ((st, field) # rest) callback s =
     (if CanSet (Field_flag fl st) then
        (case callback (Nested i j) (Kind_of field) st [cmd] s of
           Inl a \<Rightarrow> Inl a
         | Inr s' \<Rightarrow> IterFields_nested fl cmd i (j + 1) rest callback s')
      else IterFields_nested fl cmd i (j + 1) rest callback s)"

text \<open>
  The outer loop.  The state is the package variable \<open>cmds\<close> together with the
  callback's state.  A field of kind struct is a command: its lower-cased name is entered
  into \<open>cmds\<close> when it is not there, and with \<open>recurse\<close> its fields are walked; any other
  field is handed to the callback, without a command, only when \<open>recurse\<close> is false.
\<close>

fun IterFields_loop ::
  "bool \<Rightarrow> rflag \<Rightarrow> nat \<Rightarrow> (StructField \<times> Value) list \<Rightarrow> 's callback \<Rightarrow> cmds \<times> 's
     \<Rightarrow> abort + cmds \<times> 's" where
  "IterFields_loop recurse fl i [] callback (cmds, s) = Inr (cmds, s)"
| "IterFields_loop recurse fl i ((sf, field) # rest) callback (cmds, s) =
     (if Kind_of field = reflect_Struct then
        (let cmd = ToLower (Name sf);
             cmds' = (if map_of cmds cmd = None then cmds @ [(cmd, True)] else cmds)
         in if recurse \<and> CanInterface (Field_flag fl sf) then
              (case IterFields_nested (Field_flag fl sf) cmd i 0
                      (case field of VStruct nested \<Rightarrow> nested | _ \<Rightarrow> []) callback s of
                 Inl a \<Rightarrow> Inl a
               | Inr s' \<Rightarrow> IterFields_loop recurse fl (i + 1) rest callback (cmds', s'))
            else IterFields_loop recurse fl (i + 1) rest callback (cmds', s))
      else
        (if \<not> recurse \<and> CanSet (Field_flag fl sf) then
           (case callback (Top i) (Kind_of field) sf [] s of
              Inl a \<Rightarrow> Inl a
            | Inr s' \<Rightarrow> IterFields_loop recurse fl (i + 1) rest callback (cmds, s'))
         else IterFields_loop recurse fl (i + 1) rest callback (cmds, s)))"

text \<open>
  \<open>IterFields(recurse, st, v, callback)\<close>.  The type \<open>st\<close> and the value \<open>v\<close> are one
  argument here (a \<open>Value\<close> carries its field descriptions), with the flag bits of
  \<open>v\<close>.  \<open>v.NumField()\<close> panics when \<open>v\<close> is not a struct.  The walk reads names, tags and
  kinds only, which no \<open>Set\<close> changes, so it takes the struct as it was at the call.
\<close>

definition IterFields ::
  "bool \<Rightarrow> rflag \<times> Value \<Rightarrow> 's callback \<Rightarrow> cmds \<times> 's \<Rightarrow> abort + cmds \<times> 's" where
  "IterFields recurse v callback cs =
     (case snd v of
        VStruct nested \<Rightarrow> IterFields_loop recurse (fst v) 0 nested callback cs
      | _ \<Rightarrow> Inl (Panic NumFieldOfNonStruct))"

section \<open>Package flag\<close>

text \<open>
  The part of Go's standard package \<open>flag\<close> that the program calls, after the package's
  source: \<open>FlagSet\<close> with \<open>BoolVar\<close>, \<open>IntVar\<close>, \<open>StringVar\<close> (through \<open>Var\<close>),
  \<open>Parse\<close> (through \<open>parseOne\<close>), \<open>Visit\<close> and \<open>Args\<close>.

  The variables that flags write to live in a store: three typed memories and the next free
  address.  \<open>var v bool\<close> in a callback takes a fresh address; \<open>&v\<close> is that address.
\<close>

type_synonym addr = nat

record heap =
  bools :: "addr \<Rightarrow> bool"
  ints :: "addr \<Rightarrow> int"
  strs :: "addr \<Rightarrow> string"
  next_addr :: addr

definition new_var :: "heap \<Rightarrow> addr \<times> heap" where
  "new_var h = (next_addr h, h\<lparr>next_addr := next_addr h + 1\<rparr>)"

text \<open>
  \<open>flag.Value\<close>: the three implementations the program creates, each a pointer to its
  variable.  \<open>Get\<close> returns the variable's content as an \<open>interface{}\<close>.
\<close>

datatype FlagValue = boolValue addr | intValue addr | stringValue addr

datatype any = any_bool bool | any_int int | any_string string

fun Get :: "heap \<Rightarrow> FlagValue \<Rightarrow> any" where
  "Get h (boolValue p) = any_bool (bools h p)"
| "Get h (intValue p) = any_int (ints h p)"
| "Get h (stringValue p) = any_string (strs h p)"

record Flag =
  flag_Name :: string
  flag_Usage :: string
  flag_Value :: FlagValue

datatype ErrorHandling = ContinueOnError | ExitOnError | PanicOnError

text \<open>
  \<open>formal\<close> and \<open>actual\<close> are Go maps from a name to a flag: association lists with
  distinct keys, read with \<open>map_of\<close> and written with \<open>AList.update\<close>.
\<close>

record FlagSet =
  fs_name :: string
  errorHandling :: ErrorHandling
  parsed :: bool
  actual :: "(string \<times> Flag) list"
  formal :: "(string \<times> Flag) list"
  fs_args :: "string list"

definition NewFlagSet :: "string \<Rightarrow> ErrorHandling \<Rightarrow> FlagSet" where
  "NewFlagSet name handling =
     \<lparr>fs_name = name, errorHandling = handling, parsed = False, actual = [], formal = [],
      fs_args = []\<rparr>"

text \<open>
  \<open>FlagSet.Var\<close>: panics on a name that begins with \<open>-\<close> or contains \<open>=\<close>, and on a name
  that is already defined.  (\<open>Flag.DefValue\<close>, used for the help text only, is left out.)
\<close>

definition Var :: "FlagSet \<Rightarrow> FlagValue \<Rightarrow> string \<Rightarrow> string \<Rightarrow> abort + FlagSet" where
  "Var f val name usage =
     (if HasPrefix name ''-'' then Inl (Panic (FlagBeginsWithMinus name))
      else if CHR ''='' \<in> set name then Inl (Panic (FlagContainsEquals name))
      else if map_of (formal f) name \<noteq> None then Inl (Panic (FlagRedefined (fs_name f) name))
      else Inr (f\<lparr>formal := AList.update name
                  \<lparr>flag_Name = name, flag_Usage = usage, flag_Value = val\<rparr> (formal f)\<rparr>))"

text \<open>
  \<open>BoolVar(p, name, value, usage)\<close> is \<open>Var(newBoolValue(value, p), name, usage)\<close>, and
  \<open>newBoolValue\<close> stores the default in \<open>*p\<close> first; likewise for int and string.  The
  flag set and the store travel together as a pair.
\<close>

definition BoolVar ::
  "FlagSet \<times> heap \<Rightarrow> addr \<Rightarrow> string \<Rightarrow> bool \<Rightarrow> string \<Rightarrow> abort + FlagSet \<times> heap" where
  "BoolVar fh p name val usage =
     (let h = (snd fh)\<lparr>bools := (bools (snd fh))(p := val)\<rparr> in
      case Var (fst fh) (boolValue p) name usage of
        Inl a \<Rightarrow> Inl a
      | Inr f \<Rightarrow> Inr (f, h))"

definition IntVar ::
  "FlagSet \<times> heap \<Rightarrow> addr \<Rightarrow> string \<Rightarrow> int \<Rightarrow> string \<Rightarrow> abort + FlagSet \<times> heap" where
  "IntVar fh p name val usage =
     (let h = (snd fh)\<lparr>ints := (ints (snd fh))(p := val)\<rparr> in
      case Var (fst fh) (intValue p) name usage of
        Inl a \<Rightarrow> Inl a
      | Inr f \<Rightarrow> Inr (f, h))"

definition StringVar ::
  "FlagSet \<times> heap \<Rightarrow> addr \<Rightarrow> string \<Rightarrow> string \<Rightarrow> string \<Rightarrow> abort + FlagSet \<times> heap" where
  "StringVar fh p name val usage =
     (let h = (snd fh)\<lparr>strs := (strs (snd fh))(p := val)\<rparr> in
      case Var (fst fh) (stringValue p) name usage of
        Inl a \<Rightarrow> Inl a
      | Inr f \<Rightarrow> Inr (f, h))"

text \<open>
  \<open>strconv.ParseBool\<close>: the value and whether there was an error.
\<close>

definition ParseBool :: "string \<Rightarrow> bool \<times> bool" where
  "ParseBool str =
     (if str \<in> set [''1'', ''t'', ''T'', ''TRUE'', ''true'', ''True''] then (True, False)
      else if str \<in> set [''0'', ''f'', ''F'', ''FALSE'', ''false'', ''False''] then (False, False)
      else (False, True))"

text \<open>
  \<open>Value.Set\<close>: the new store and whether there was an error.  \<open>boolValue.Set\<close> and
  \<open>intValue.Set\<close> assign what the parser returned also when it failed.
  \<open>strconv.ParseInt(s, 0, strconv.IntSize)\<close> is not part of this program: it is the
  parameter \<open>ParseInt\<close>, giving the value and whether there was an error.
\<close>

fun Set :: "(string \<Rightarrow> int \<times> bool) \<Rightarrow> heap \<Rightarrow> FlagValue \<Rightarrow> string \<Rightarrow> heap \<times> bool" where
  "Set ParseInt h (boolValue p) str =
     (h\<lparr>bools := (bools h)(p := fst (ParseBool str))\<rparr>, snd (ParseBool str))"
| "Set ParseInt h (intValue p) str =
     (h\<lparr>ints := (ints h)(p := fst (ParseInt str))\<rparr>, snd (ParseInt str))"
| "Set ParseInt h (stringValue p) str = (h\<lparr>strs := (strs h)(p := str)\<rparr>, False)"

text \<open>Only \<open>boolValue\<close> has \<open>IsBoolFlag\<close>.\<close>

fun IsBoolFlag :: "FlagValue \<Rightarrow> bool" where
  "IsBoolFlag (boolValue p) = True"
| "IsBoolFlag (intValue p) = False"
| "IsBoolFlag (stringValue p) = False"

text \<open>
  The loop of \<open>parseOne\<close> that looks for \<open>=\<close> in the name, from index 1 on: the name, whether
  there is a value, and the value.
\<close>

fun equals_loop :: "string \<Rightarrow> nat \<Rightarrow> string \<Rightarrow> string \<times> bool \<times> string" where
  "equals_loop name i [] = (name, False, [])"
| "equals_loop name i (c # cs) =
     (if c = CHR ''='' then (take i name, True, drop (i + 1) name)
      else equals_loop name (i + 1) cs)"

text \<open>
  \<open>FlagSet.parseOne\<close>: whether a flag was seen, the error, the flag set and the store.
\<close>

definition parseOne ::
  "(string \<Rightarrow> int \<times> bool) \<Rightarrow> FlagSet \<times> heap \<Rightarrow> (bool \<times> error option) \<times> FlagSet \<times> heap" where
  "parseOne ParseInt fh =
     (let f = fst fh; h = snd fh in
      case fs_args f of
        [] \<Rightarrow> ((False, None), f, h)
      | s # rest \<Rightarrow>
          if length s < 2 \<or> s ! 0 \<noteq> CHR ''-'' then ((False, None), f, h)
          else if s ! 1 = CHR ''-'' \<and> length s = 2 then
            ((False, None), f\<lparr>fs_args := rest\<rparr>, h)
          else
            (let numMinuses = (if s ! 1 = CHR ''-'' then 2 else 1 :: nat);
                 name = drop numMinuses s
             in if length name = 0 \<or> name ! 0 = CHR ''-'' \<or> name ! 0 = CHR ''='' then
                  ((False, Some (ErrBadFlagSyntax s)), f, h)
                else
                  (let f1 = f\<lparr>fs_args := rest\<rparr>;
                       (name, hasValue, val) = equals_loop name 1 (drop 1 name)
                   in case map_of (formal f1) name of
                        None \<Rightarrow>
                          if name = ''help'' \<or> name = ''h'' then ((False, Some ErrHelp), f1, h)
                          else ((False, Some (ErrNotDefined name)), f1, h)
                      | Some flag \<Rightarrow>
                          if IsBoolFlag (flag_Value flag) then
                            (let (h1, err) =
                                   Set ParseInt h (flag_Value flag)
                                     (if hasValue then val else ''true'')
                             in if err then ((False, Some (ErrInvalidBoolean val name)), f1, h1)
                                else ((True, None),
                                      f1\<lparr>actual := AList.update name flag (actual f1)\<rparr>, h1))
                          else
                            (let (hasValue, val, f2) =
                                   (if \<not> hasValue \<and> length (fs_args f1) > 0
                                    then (True, hd (fs_args f1),
                                          f1\<lparr>fs_args := tl (fs_args f1)\<rparr>)
                                    else (hasValue, val, f1))
                             in if \<not> hasValue then
                                  ((False, Some (ErrNeedsArgument name)), f2, h)
                                else
                                  (let (h1, err) = Set ParseInt h (flag_Value flag) val
                                   in if err then
                                        ((False, Some (ErrInvalidValue val name)), f2, h1)
                                      else ((True, None),
                                            f2\<lparr>actual := AList.update name flag (actual f2)\<rparr>,
                                            h1))))))"

lemma parseOne_seen_shorter:
  "parseOne ParseInt (f, h) = ((True, e), f', h') \<Longrightarrow>
     length (fs_args f') < length (fs_args f)"
  by (auto simp: parseOne_def Let_def split: list.splits if_splits option.splits prod.splits)

text \<open>
  The loop of \<open>FlagSet.Parse\<close>: it goes on while a flag was seen, returns nil at the end of
  the flags, and treats an error as the flag set's \<open>errorHandling\<close> says: return it, exit
  (status 0 for the help request, 2 otherwise) or panic.
\<close>

function Parse_loop ::
  "(string \<Rightarrow> int \<times> bool) \<Rightarrow> FlagSet \<times> heap \<Rightarrow> abort + error option \<times> FlagSet \<times> heap" where
  "Parse_loop ParseInt fh =
     (case parseOne ParseInt fh of
        ((seen, err), fh') \<Rightarrow>
          if seen then Parse_loop ParseInt fh'
          else
            (case err of
               None \<Rightarrow> Inr (None, fh')
             | Some e \<Rightarrow>
                 (case errorHandling (fst fh') of
                    ContinueOnError \<Rightarrow> Inr (Some e, fh')
                  | ExitOnError \<Rightarrow> Inl (OsExit (if e = ErrHelp then 0 else 2))
                  | PanicOnError \<Rightarrow> Inl (Panic (PanicOnErrorRaised e)))))"
  by pat_completeness auto
termination
  apply (relation "measure (\<lambda>(ParseInt, fh). length (fs_args (fst fh)))")
   apply simp
  apply clarsimp
  apply (metis parseOne_seen_shorter)
  done

declare Parse_loop.simps [simp del]

definition FlagSet_Parse ::
  "(string \<Rightarrow> int \<times> bool) \<Rightarrow> FlagSet \<times> heap \<Rightarrow> string list
     \<Rightarrow> abort + error option \<times> FlagSet \<times> heap" where
  "FlagSet_Parse ParseInt fh arguments =
     Parse_loop ParseInt ((fst fh)\<lparr>parsed := True, fs_args := arguments\<rparr>, snd fh)"

text \<open>
  \<open>FlagSet.Visit\<close> calls its function for the flags that have been set, in the order of
  their names (\<open>sortFlags\<close>); the model gives that list of flags.
\<close>

definition Visit :: "FlagSet \<Rightarrow> Flag list" where
  "Visit f = sort_key flag_Name (map snd (actual f))"

section \<open>Registering the flags of a field\<close>

text \<open>
  The \<open>switch field.Kind()\<close> that defines the two flags of a field.  It stands twice in
  the source: in \<open>Parse\<close> on the package functions \<open>flag.BoolVar\<close>, ... (which are the
  methods of \<open>flag.CommandLine\<close>) and in \<open>CommandFlagSet\<close> on the methods of \<open>cfs\<close>.
  Here it is one function of the flag set.  \<open>var v bool\<close> is a fresh variable, and both
  flags get its address.
\<close>

definition registrar :: "Kind \<Rightarrow> StructField \<Rightarrow> FlagSet \<times> heap \<Rightarrow> abort + FlagSet \<times> heap" where
  "registrar k sf fh =
     (let (v, h) = new_var (snd fh); f = fst fh in
      case k of
        reflect_Bool \<Rightarrow>
          (case BoolVar (f, h) v (ToLower (Name sf)) False (Tag_Get (Tag sf) ''usage'') of
             Inl a \<Rightarrow> Inl a
           | Inr fh1 \<Rightarrow>
               BoolVar fh1 v (Tag_Get (Tag sf) ''short'') False
                 (Tag_Get (Tag sf) ''usage'' @ '' (shorthand)''))
      | reflect_Int \<Rightarrow>
          (case IntVar (f, h) v (ToLower (Name sf)) 0 (Tag_Get (Tag sf) ''usage'') of
             Inl a \<Rightarrow> Inl a
           | Inr fh1 \<Rightarrow>
               IntVar fh1 v (Tag_Get (Tag sf) ''short'') 0
                 (Tag_Get (Tag sf) ''usage'' @ '' (shorthand)''))
      | reflect_String \<Rightarrow>
          (case StringVar (f, h) v (ToLower (Name sf)) [] (Tag_Get (Tag sf) ''usage'') of
             Inl a \<Rightarrow> Inl a
           | Inr fh1 \<Rightarrow>
               StringVar fh1 v (Tag_Get (Tag sf) ''short'') []
                 (Tag_Get (Tag sf) ''usage'' @ '' (shorthand)''))
      | _ \<Rightarrow> Inr fh)"

text \<open>The callback of the first \<open>IterFields\<close> call of \<open>Parse\<close>.\<close>

definition register_global :: "(FlagSet \<times> heap) callback" where
  "register_global field k sf cmd fh = registrar k sf fh"

section \<open>CommandFlagSet\<close>

text \<open>
  The callback reads \<open>currentCmd[0]\<close>, which panics on an empty list.
\<close>

definition register_command :: "string \<Rightarrow> (FlagSet \<times> heap) callback" where
  "register_command cmd field k sf currentCmd fh =
     (case currentCmd of
        [] \<Rightarrow> Inl (Panic IndexOutOfRange)
      | c # cs \<Rightarrow> if c = cmd then registrar k sf fh else Inr fh)"

text \<open>
  \<open>CommandFlagSet(cmd, cmdFlags, st, v)\<close> works on the package variable \<open>cmds\<close> (through
  \<open>IterFields\<close>) and on the store; it returns them with the new flag set.
\<close>

definition CommandFlagSet ::
  "string \<Rightarrow> string list \<Rightarrow> rflag \<times> Value \<Rightarrow> cmds \<times> heap \<Rightarrow> abort + cmds \<times> FlagSet \<times> heap" where
  "CommandFlagSet cmd cmdFlags v ch =
     IterFields True v (register_command cmd) (fst ch, (NewFlagSet cmd ExitOnError, snd ch))"

section \<open>Binding the values of the flags\<close>

text \<open>
  The schema with the field at a place replaced by a value.
\<close>

fun assign :: "fieldref \<Rightarrow> Value \<Rightarrow> Value \<Rightarrow> Value" where
  "assign (Top i) x (VStruct fs) = VStruct (fs[i := (fst (fs ! i), x)])"
| "assign (Nested i j) x (VStruct fs) =
     (case snd (fs ! i) of
        VStruct nested \<Rightarrow>
          VStruct (fs[i := (fst (fs ! i), VStruct (nested[j := (fst (nested ! j), x)]))])
      | _ \<Rightarrow> VStruct fs)"
| "assign field x v = v"

text \<open>
  \<open>field.Set(reflect.ValueOf(b))\<close>: reflect panics when the field's type is not the type of
  \<open>b\<close>, which is so for a defined type.
\<close>

definition field_Set :: "fieldref \<Rightarrow> StructField \<Rightarrow> Value \<Rightarrow> Value \<Rightarrow> abort + Value" where
  "field_Set field sf x schema =
     (if defined_type sf then Inl (Panic SetNotAssignable) else Inr (assign field x schema))"

text \<open>
  The function handed to \<open>Visit\<close>, for one flag \<open>f\<close>: when the flag's name is the field's
  lower-cased name or its short tag, and the flag's value has the type of the field's kind,
  the value is assigned.  (Every \<open>FlagValue\<close> is a \<open>flag.Getter\<close>.)
\<close>

definition bind_flag ::
  "heap \<Rightarrow> fieldref \<Rightarrow> Kind \<Rightarrow> StructField \<Rightarrow> Flag \<Rightarrow> Value \<Rightarrow> abort + Value" where
  "bind_flag h field k sf f schema =
     (if flag_Name f = ToLower (Name sf) \<or> flag_Name f = Tag_Get (Tag sf) ''short'' then
        (case k of
           reflect_Bool \<Rightarrow>
             (case Get h (flag_Value f) of
                any_bool b \<Rightarrow> field_Set field sf (VBool b) schema
              | _ \<Rightarrow> Inr schema)
         | reflect_Int \<Rightarrow>
             (case Get h (flag_Value f) of
                any_int i \<Rightarrow> field_Set field sf (VInt i) schema
              | _ \<Rightarrow> Inr schema)
         | reflect_String \<Rightarrow>
             (case Get h (flag_Value f) of
                any_string s \<Rightarrow> field_Set field sf (VString s) schema
              | _ \<Rightarrow> Inr schema)
         | _ \<Rightarrow> Inr schema)
      else Inr schema)"

text \<open>Calling a function for each flag of a list, in order, until one panics.\<close>

fun visit_each :: "(Flag \<Rightarrow> 's \<Rightarrow> abort + 's) \<Rightarrow> Flag list \<Rightarrow> 's \<Rightarrow> abort + 's" where
  "visit_each fn [] s = Inr s"
| "visit_each fn (f # fs) s =
     (case fn f s of Inl a \<Rightarrow> Inl a | Inr s' \<Rightarrow> visit_each fn fs s')"

text \<open>
  The callback of the two binding passes of \<open>Parse\<close> (on \<open>flag.Visit\<close> and on
  \<open>cfs.Visit\<close>): its state is the schema.
\<close>

definition bind_field :: "FlagSet \<times> heap \<Rightarrow> Value callback" where
  "bind_field fh field k sf cmd schema =
     visit_each (bind_flag (snd fh) field k sf) (Visit (fst fh)) schema"

section \<open>Parse\<close>

text \<open>
  What \<open>Parse\<close> works on besides its argument: \<open>os.Args\<close>, the package variable \<open>cmds\<close>,
  \<open>flag.CommandLine\<close> and the store.
\<close>

record world =
  os_Args :: "string list"
  pkg_cmds :: cmds
  CommandLine :: FlagSet
  store :: heap

text \<open>
  The argument \<open>s interface{}\<close>: nil, a pointer (nil, or to a value), or a value that is
  not a pointer.  \<open>reflect.Indirect(reflect.ValueOf(s))\<close> is the zero \<open>Value\<close> (\<open>None\<close>)
  for nil and for a nil pointer, the addressable value pointed to for a pointer, and the
  value itself, not addressable, otherwise.
\<close>

datatype Iface = iface_nil | iface_ptr "Value option" | iface_val Value

fun Indirect_ValueOf :: "Iface \<Rightarrow> (rflag \<times> Value) option" where
  "Indirect_ValueOf iface_nil = None"
| "Indirect_ValueOf (iface_ptr None) = None"
| "Indirect_ValueOf (iface_ptr (Some x)) = Some (\<lparr>flagAddr = True, flagRO = False\<rparr>, x)"
| "Indirect_ValueOf (iface_val x) = Some (\<lparr>flagAddr = False, flagRO = False\<rparr>, x)"

text \<open>What \<open>s\<close> holds once the struct it points to has become \<open>x\<close>.\<close>

fun pointee_update :: "Iface \<Rightarrow> Value \<Rightarrow> Iface" where
  "pointee_update (iface_ptr (Some y)) x = iface_ptr (Some x)"
| "pointee_update s x = s"

text \<open>
  A call of \<open>Parse\<close> that returns: the error returned, the world and the schema at the
  return, and the local variable \<open>cfs\<close> if the call got that far.
\<close>

record run =
  r_err :: "error option"
  r_world :: world
  r_schema :: Iface
  r_cfs :: "FlagSet option"

text \<open>
  \<open>Parse\<close> from the first \<open>IterFields\<close> call on, for the struct \<open>v\<close>.  \<open>flag.Parse()\<close> is
  \<open>CommandLine.Parse(os.Args[1:])\<close> with the error dropped.
\<close>

definition Parse_struct ::
  "(string \<Rightarrow> int \<times> bool) \<Rightarrow> world \<Rightarrow> Iface \<Rightarrow> string list \<Rightarrow> rflag \<times> Value \<Rightarrow> abort + run" where
  "Parse_struct ParseInt w s args v =
     (case IterFields False v register_global (pkg_cmds w, (CommandLine w, store w)) of
        Inl a \<Rightarrow> Inl a
      | Inr (cmds1, fh1) \<Rightarrow>
     (case FlagSet_Parse ParseInt fh1 args of
        Inl a \<Rightarrow> Inl a
      | Inr (ignored, fh2) \<Rightarrow>
     (case IterFields False v (bind_field fh2) (cmds1, snd v) of
        Inl a \<Rightarrow> Inl a
      | Inr (cmds2, schema1) \<Rightarrow>
     (case IdentifyCommand cmds2 args of
        Inl a \<Rightarrow> Inl a
      | Inr cmd \<Rightarrow>
     (let cmdFlags = CommandFlags cmd (fs_args (fst fh2)) in
      case CommandFlagSet cmd cmdFlags v (cmds2, snd fh2) of
        Inl a \<Rightarrow> Inl a
      | Inr (cmds3, cfs0) \<Rightarrow>
     (case FlagSet_Parse ParseInt cfs0 cmdFlags of
        Inl a \<Rightarrow> Inl a
      | Inr (err, cfs) \<Rightarrow>
     (case err of
        Some e \<Rightarrow>
          Inr \<lparr>r_err = Some e,
               r_world = w\<lparr>pkg_cmds := cmds3, CommandLine := fst fh2, store := snd cfs\<rparr>,
               r_schema = pointee_update s schema1, r_cfs = Some (fst cfs)\<rparr>
      | None \<Rightarrow>
     (case IterFields True v (bind_field cfs) (cmds3, schema1) of
        Inl a \<Rightarrow> Inl a
      | Inr (cmds4, schema2) \<Rightarrow>
          Inr \<lparr>r_err = None,
               r_world = w\<lparr>pkg_cmds := cmds4, CommandLine := fst fh2, store := snd cfs\<rparr>,
               r_schema = pointee_update s schema2, r_cfs = Some (fst cfs)\<rparr>))))))))"

text \<open>
  \<open>Parse(s)\<close>.  \<open>os.Args[1:]\<close> panics on an empty \<open>os.Args\<close>; \<open>v.Type()\<close> panics on
  the zero \<open>Value\<close>, and it is called before the kind is looked at.
\<close>

definition Parse :: "(string \<Rightarrow> int \<times> bool) \<Rightarrow> world \<Rightarrow> Iface \<Rightarrow> abort + run" where
  "Parse ParseInt w s =
     (if os_Args w = [] then Inl (Panic SliceBoundsOutOfRange)
      else
        (let args = drop 1 (os_Args w) in
         if length args = 0 then
           Inr \<lparr>r_err = Some ErrNoArgs, r_world = w, r_schema = s, r_cfs = None\<rparr>
         else
           (case Indirect_ValueOf s of
              None \<Rightarrow> Inl (Panic TypeOfZeroValue)
            | Some v \<Rightarrow>
                if Kind_of (snd v) \<noteq> reflect_Struct then
                  Inr \<lparr>r_err = Some ErrWrongType, r_world = w, r_schema = s, r_cfs = None\<rparr>
                else Parse_struct ParseInt w s args v)))"

section \<open>Properties of IdentifyCommand\<close>

lemma range_cmds_iff:
  "range_cmds cmds arg seen \<longleftrightarrow> seen \<or> arg \<in> fst ` set cmds"
  by (induction cmds arg seen rule: range_cmds.induct) auto

text \<open>A token counts as a command when it is not flag-shaped and is a key of \<open>cmds\<close>.\<close>

definition is_command :: "cmds \<Rightarrow> string \<Rightarrow> bool" where
  "is_command cmds arg = (\<not> HasPrefix arg ''-'' \<and> arg \<in> fst ` set cmds)"

lemma IdentifyCommand_loop_seen:
  "IdentifyCommand_loop cmds args (i, True) = (i, True)"
  by (cases args) simp_all

lemma IdentifyCommand_loop_find:
  "IdentifyCommand_loop cmds args (i, False) =
     (case List.find (is_command cmds) args of
        None \<Rightarrow> (i + length args, False)
      | Some a \<Rightarrow> (i + length (takeWhile (\<lambda>a. \<not> is_command cmds a) args), True))"
proof (induction args arbitrary: i)
  case Nil
  show ?case by simp
next
  case (Cons arg args)
  show ?case
  proof (cases "is_command cmds arg")
    case True
    then show ?thesis
      by (simp add: is_command_def range_cmds_iff IdentifyCommand_loop_seen)
  next
    case False
    then have step: "IdentifyCommand_loop cmds (arg # args) (i, False) =
        IdentifyCommand_loop cmds args (i + 1, False)"
      by (auto simp: is_command_def range_cmds_iff Let_def)
    show ?thesis
      unfolding step Cons.IH using False
      by (simp split: option.splits)
  qed
qed

lemma find_nth_takeWhile:
  "List.find P xs = Some a \<Longrightarrow>
     length (takeWhile (\<lambda>x. \<not> P x) xs) < length xs \<and>
     xs ! length (takeWhile (\<lambda>x. \<not> P x) xs) = a"
  by (induction xs) (auto split: if_splits)

text \<open>
  C1.  For every command registry and every argument sequence, \<open>IdentifyCommand\<close> returns
  (it never panics on its index) the leftmost argument that does not begin with \<open>-\<close> and
  equals, character for character, a key of the registry; when there is no such argument
  it returns the empty string.  With the commands foo and bar and the arguments
  \<open>-d foo -a x\<close> the result is foo.
\<close>

theorem IdentifyCommand_leftmost:
  "IdentifyCommand cmds args =
     Inr (case List.find (\<lambda>a. \<not> HasPrefix a ''-'' \<and> a \<in> fst ` set cmds) args of
            None \<Rightarrow> '''' | Some a \<Rightarrow> a)
   \<and> IdentifyCommand [(''foo'', True), (''bar'', True)] [''-d'', ''foo'', ''-a'', ''x'']
       = Inr ''foo''"
proof -
  have gen: "IdentifyCommand c as =
     Inr (case List.find (\<lambda>a. \<not> HasPrefix a ''-'' \<and> a \<in> fst ` set c) as of
            None \<Rightarrow> '''' | Some a \<Rightarrow> a)" for c as
  proof -
    have P: "(\<lambda>a. \<not> HasPrefix a ''-'' \<and> a \<in> fst ` set c) = is_command c"
      by (simp add: is_command_def fun_eq_iff)
    show ?thesis
    proof (cases "List.find (is_command c) as")
      case None
      then show ?thesis
        by (simp add: IdentifyCommand_def IdentifyCommand_loop_find P)
    next
      case (Some a)
      from find_nth_takeWhile [OF Some] Some show ?thesis
        by (simp add: IdentifyCommand_def IdentifyCommand_loop_find P)
    qed
  qed
  have ex: "IdentifyCommand [(''foo'', True), (''bar'', True)] [''-d'', ''foo'', ''-a'', ''x'']
       = Inr ''foo''"
    unfolding gen by (simp add: HasPrefix_def)
  from gen ex show ?thesis by blast
qed

theorem IdentifyCommand_leftmost_witness:
  "IdentifyCommand [(''foo'', True), (''bar'', True)] [''-x'', ''baz'', ''bar'', ''foo'']
     = Inr ''bar''
   \<and> IdentifyCommand [(''foo'', True)] [''-foo'', ''Foo''] = Inr ''''"
  using IdentifyCommand_leftmost [of "[(''foo'', True), (''bar'', True)]"
          "[''-x'', ''baz'', ''bar'', ''foo'']"]
        IdentifyCommand_leftmost [of "[(''foo'', True)]" "[''-foo'', ''Foo'']"]
  by (simp add: HasPrefix_def)

section \<open>Properties of CommandFlags\<close>

lemma CommandFlags_loop_eq:
  "CommandFlags_loop cmd args i vs =
     (if cmd \<in> set vs then drop (i + 1 + length (takeWhile (\<lambda>v. v \<noteq> cmd) vs)) args else [])"
  by (induction vs arbitrary: i) auto

lemma drop_takeWhile_tl_dropWhile:
  "drop (Suc (length (takeWhile P xs))) xs = tl (dropWhile P xs)"
  by (induction xs) auto

text \<open>
  C4 (as the code has it).  \<open>CommandFlags\<close> returns the arguments strictly after the first
  element equal to the command string, and the empty sequence when the command string does
  not occur as an element; the empty command string is no special case.  The two examples of
  the specification hold.
\<close>

theorem CommandFlags_after_first:
  "CommandFlags cmd args =
     (if cmd \<in> set args then tl (dropWhile (\<lambda>v. v \<noteq> cmd) args) else [])
   \<and> CommandFlags ''foo'' [''-d'', ''foo'', ''-a'', ''x''] = [''-a'', ''x'']
   \<and> CommandFlags ''missing'' [''-d'', ''foo'', ''-a'', ''x''] = []"
proof -
  have gen: "CommandFlags c as =
     (if c \<in> set as then tl (dropWhile (\<lambda>v. v \<noteq> c) as) else [])" for c as
    by (simp add: CommandFlags_def CommandFlags_loop_eq drop_takeWhile_tl_dropWhile)
  show ?thesis unfolding gen by simp
qed

theorem CommandFlags_after_first_witness:
  "CommandFlags ''foo'' [''foo'', ''-a'', ''foo'', ''b''] = [''-a'', ''foo'', ''b'']
   \<and> CommandFlags '''' [''-d'', ''foo''] = []"
  using CommandFlags_after_first [of "''foo''" "[''foo'', ''-a'', ''foo'', ''b'']"]
        CommandFlags_after_first [of "''''" "[''-d'', ''foo'']"]
  by simp

text \<open>
  The claim as written also promises the empty sequence whenever the command string is
  empty.  An argument vector can hold the empty string as an element (\<open>prog "" -a\<close>), and
  then the empty command string is found like any other.
\<close>

theorem CommandFlags_empty_command_counterexample:
  "CommandFlags '''' ['''', ''-a''] = [''-a''] \<and> CommandFlags '''' ['''', ''-a''] \<noteq> []"
  by (simp add: CommandFlags_def)

section \<open>The walk of IterFields as a list of visits\<close>

text \<open>
  A visit is one call of the callback: the field, its kind, its \<open>StructField\<close> and the
  command list.  The following functions list the visits of a walk and say what the walk
  does to \<open>cmds\<close>; \<open>IterFields\<close> is then shown to run the callback over that list.
\<close>

type_synonym visit = "fieldref \<times> Kind \<times> StructField \<times> string list"

fun nested_visits ::
  "rflag \<Rightarrow> string \<Rightarrow> nat \<Rightarrow> nat \<Rightarrow> (StructField \<times> Value) list \<Rightarrow> visit list" where
  "nested_visits fl cmd i j [] = []"
| "nested_visits fl cmd i j ((st, field) # rest) =
     (if CanSet (Field_flag fl st) then [(Nested i j, Kind_of field, st, [cmd])] else [])
     @ nested_visits fl cmd i (j + 1) rest"

fun struct_fields :: "Value \<Rightarrow> (StructField \<times> Value) list" where
  "struct_fields (VStruct nested) = nested"
| "struct_fields v = []"

fun visits :: "bool \<Rightarrow> rflag \<Rightarrow> nat \<Rightarrow> (StructField \<times> Value) list \<Rightarrow> visit list" where
  "visits recurse fl i [] = []"
| "visits recurse fl i ((sf, field) # rest) =
     (if Kind_of field = reflect_Struct then
        (if recurse \<and> CanInterface (Field_flag fl sf)
         then nested_visits (Field_flag fl sf) (ToLower (Name sf)) i 0 (struct_fields field)
         else [])
      else (if \<not> recurse \<and> CanSet (Field_flag fl sf)
            then [(Top i, Kind_of field, sf, [])] else []))
     @ visits recurse fl (i + 1) rest"

fun walk_cmds :: "(StructField \<times> Value) list \<Rightarrow> cmds \<Rightarrow> cmds" where
  "walk_cmds [] cmds = cmds"
| "walk_cmds ((sf, field) # rest) cmds =
     walk_cmds rest
       (if Kind_of field = reflect_Struct \<and> map_of cmds (ToLower (Name sf)) = None
        then cmds @ [(ToLower (Name sf), True)] else cmds)"

fun run_visits :: "'s callback \<Rightarrow> visit list \<Rightarrow> 's \<Rightarrow> abort + 's" where
  "run_visits callback [] s = Inr s"
| "run_visits callback ((field, k, sf, cmd) # vs) s =
     (case callback field k sf cmd s of
        Inl a \<Rightarrow> Inl a
      | Inr s' \<Rightarrow> run_visits callback vs s')"

lemma run_visits_append:
  "run_visits callback (vs @ ws) s =
     (case run_visits callback vs s of Inl a \<Rightarrow> Inl a | Inr s' \<Rightarrow> run_visits callback ws s')"
  by (induction vs arbitrary: s) (auto split: sum.splits)

lemma IterFields_nested_visits:
  "IterFields_nested fl cmd i j fs callback s =
     run_visits callback (nested_visits fl cmd i j fs) s"
  by (induction fs arbitrary: j s) (auto split: sum.splits)

lemma struct_fields_case:
  "(case field of VStruct nested \<Rightarrow> nested | _ \<Rightarrow> []) = struct_fields field"
  by (cases field) simp_all

lemma IterFields_loop_deep_visits:
  "IterFields_loop True fl i fs callback (cmds, s) =
     (case run_visits callback (visits True fl i fs) s of
        Inl a \<Rightarrow> Inl a
      | Inr s' \<Rightarrow> Inr (walk_cmds fs cmds, s'))"
proof (induction fs arbitrary: i cmds s)
  case Nil
  show ?case by simp
next
  case (Cons p fs)
  obtain sf field where p: "p = (sf, field)" by (cases p)
  show ?case
    unfolding p
    by (simp add: Cons.IH run_visits_append IterFields_nested_visits struct_fields_case
          Let_def split: sum.splits)
qed

lemma IterFields_loop_shallow_visits:
  "IterFields_loop False fl i fs callback (cmds, s) =
     (case run_visits callback (visits False fl i fs) s of
        Inl a \<Rightarrow> Inl a
      | Inr s' \<Rightarrow> Inr (walk_cmds fs cmds, s'))"
proof (induction fs arbitrary: i cmds s)
  case Nil
  show ?case by simp
next
  case (Cons p fs)
  obtain sf field where p: "p = (sf, field)" by (cases p)
  show ?case
    unfolding p
    by (simp add: Cons.IH Let_def split: sum.splits)
qed

lemma IterFields_loop_visits:
  "IterFields_loop recurse fl i fs callback (cmds, s) =
     (case run_visits callback (visits recurse fl i fs) s of
        Inl a \<Rightarrow> Inl a
      | Inr s' \<Rightarrow> Inr (walk_cmds fs cmds, s'))"
  by (cases recurse) (simp_all only: IterFields_loop_deep_visits IterFields_loop_shallow_visits)

lemma IterFields_visits:
  "IterFields recurse (fl, VStruct fs) callback (cmds, s) =
     (case run_visits callback (visits recurse fl 0 fs) s of
        Inl a \<Rightarrow> Inl a
      | Inr s' \<Rightarrow> Inr (walk_cmds fs cmds, s'))"
  by (simp add: IterFields_def IterFields_loop_visits)

text \<open>Where the visits of a walk come from.\<close>

lemma nested_visits_mem:
  "v \<in> set (nested_visits fl cmd i j fs) \<Longrightarrow>
     \<exists>n st field. n < length fs \<and> fs ! n = (st, field) \<and> CanSet (Field_flag fl st) \<and>
        v = (Nested i (j + n), Kind_of field, st, [cmd])"
proof (induction fs arbitrary: j)
  case Nil
  then show ?case by simp
next
  case (Cons p fs)
  obtain st field where p: "p = (st, field)" by (cases p)
  from Cons.prems consider
      (here) "CanSet (Field_flag fl st)" "v = (Nested i j, Kind_of field, st, [cmd])"
    | (later) "v \<in> set (nested_visits fl cmd i (j + 1) fs)"
    unfolding p by (auto split: if_splits)
  then show ?case
  proof cases
    case here
    then show ?thesis unfolding p by (rule_tac x = 0 in exI) simp
  next
    case later
    from Cons.IH [OF later] obtain n st' field' where
      "n < length fs" "fs ! n = (st', field')" "CanSet (Field_flag fl st')"
      "v = (Nested i (j + 1 + n), Kind_of field', st', [cmd])"
      by blast
    then show ?thesis by (rule_tac x = "Suc n" in exI) simp
  qed
qed

lemma deep_visits_mem:
  "v \<in> set (visits True fl i fs) \<Longrightarrow>
     \<exists>m sf nested n st field.
        m < length fs \<and> fs ! m = (sf, VStruct nested) \<and> CanInterface (Field_flag fl sf) \<and>
        n < length nested \<and> nested ! n = (st, field) \<and>
        CanSet (Field_flag (Field_flag fl sf) st) \<and>
        v = (Nested (i + m) n, Kind_of field, st, [ToLower (Name sf)])"
proof (induction fs arbitrary: i)
  case Nil
  then show ?case by simp
next
  case (Cons p fs)
  obtain sf field where p: "p = (sf, field)" by (cases p)
  from Cons.prems consider
      (here) "Kind_of field = reflect_Struct" "CanInterface (Field_flag fl sf)"
        "v \<in> set (nested_visits (Field_flag fl sf) (ToLower (Name sf)) i 0 (struct_fields field))"
    | (later) "v \<in> set (visits True fl (i + 1) fs)"
    unfolding p by (auto split: if_splits)
  then show ?case
  proof cases
    case here
    from here(1) obtain nested where f: "field = VStruct nested" by (cases field) simp_all
    from nested_visits_mem [OF here(3)] f obtain n st x where
      "n < length nested" "nested ! n = (st, x)" "CanSet (Field_flag (Field_flag fl sf) st)"
      "v = (Nested i n, Kind_of x, st, [ToLower (Name sf)])"
      by auto
    with here(2) f show ?thesis unfolding p
      by (rule_tac x = 0 in exI, rule_tac x = sf in exI, rule_tac x = nested in exI,
          rule_tac x = n in exI) simp
  next
    case later
    from Cons.IH [OF later] obtain m sf' nested n st x where
      "m < length fs" "fs ! m = (sf', VStruct nested)" "CanInterface (Field_flag fl sf')"
      "n < length nested" "nested ! n = (st, x)" "CanSet (Field_flag (Field_flag fl sf') st)"
      "v = (Nested (i + 1 + m) n, Kind_of x, st, [ToLower (Name sf')])"
      by blast
    then show ?thesis
      by (rule_tac x = "Suc m" in exI, rule_tac x = sf' in exI, rule_tac x = nested in exI,
          rule_tac x = n in exI) simp
  qed
qed

lemma shallow_visits_mem:
  "v \<in> set (visits False fl i fs) \<Longrightarrow>
     \<exists>m sf field.
        m < length fs \<and> fs ! m = (sf, field) \<and> Kind_of field \<noteq> reflect_Struct \<and>
        CanSet (Field_flag fl sf) \<and> v = (Top (i + m), Kind_of field, sf, [])"
proof (induction fs arbitrary: i)
  case Nil
  then show ?case by simp
next
  case (Cons p fs)
  obtain sf field where p: "p = (sf, field)" by (cases p)
  from Cons.prems consider
      (here) "Kind_of field \<noteq> reflect_Struct" "CanSet (Field_flag fl sf)"
        "v = (Top i, Kind_of field, sf, [])"
    | (later) "v \<in> set (visits False fl (i + 1) fs)"
    unfolding p by (auto split: if_splits)
  then show ?case
  proof cases
    case here
    then show ?thesis unfolding p by (rule_tac x = 0 in exI) simp
  next
    case later
    from Cons.IH [OF later] obtain m sf' x where
      "m < length fs" "fs ! m = (sf', x)" "Kind_of x \<noteq> reflect_Struct"
      "CanSet (Field_flag fl sf')" "v = (Top (i + 1 + m), Kind_of x, sf', [])"
      by blast
    then show ?thesis by (rule_tac x = "Suc m" in exI) simp
  qed
qed

text \<open>Invariants of a run over a list of visits, and where an abort comes from.\<close>

lemma run_visits_invariant:
  assumes "run_visits callback vs s = Inr s'" and "P s"
    and "\<And>field k sf cmd s1 s2. (field, k, sf, cmd) \<in> set vs \<Longrightarrow> P s1 \<Longrightarrow>
           callback field k sf cmd s1 = Inr s2 \<Longrightarrow> P s2"
  shows "P s'"
  using assms
proof (induction vs arbitrary: s)
  case Nil
  then show ?case by simp
next
  case (Cons v vs)
  obtain field k sf cmd where v: "v = (field, k, sf, cmd)" by (cases v)
  from Cons.prems(1) obtain s1 where s1: "callback field k sf cmd s = Inr s1"
    and rest: "run_visits callback vs s1 = Inr s'"
    unfolding v by (auto split: sum.splits)
  have "P s1" using Cons.prems(3) [of field k sf cmd s s1] Cons.prems(2) s1 v by simp
  show ?case
  proof (rule Cons.IH [OF rest \<open>P s1\<close>])
    fix field k sf cmd s1 s2
    assume "(field, k, sf, cmd) \<in> set vs" "P s1" "callback field k sf cmd s1 = Inr s2"
    then show "P s2" using Cons.prems(3) [of field k sf cmd s1 s2] by simp
  qed
qed

lemma run_visits_abort:
  "run_visits callback vs s = Inl a \<Longrightarrow>
     \<exists>field k sf cmd s1. (field, k, sf, cmd) \<in> set vs \<and> callback field k sf cmd s1 = Inl a"
proof (induction vs arbitrary: s)
  case Nil
  then show ?case by simp
next
  case (Cons v vs)
  obtain field k sf cmd where v: "v = (field, k, sf, cmd)" by (cases v)
  show ?case
  proof (cases "callback field k sf cmd s")
    case (Inl b)
    with Cons.prems v have "b = a" by simp
    with Inl v show ?thesis by (metis list.set_intros(1))
  next
    case (Inr s1)
    with Cons.prems v have "run_visits callback vs s1 = Inl a" by simp
    from Cons.IH [OF this] obtain field' k' sf' cmd' s2 where
      "(field', k', sf', cmd') \<in> set vs" "callback field' k' sf' cmd' s2 = Inl a"
      by blast
    then show ?thesis by (metis list.set_intros(2))
  qed
qed


section \<open>What registering does to a flag set\<close>

lemma Var_result:
  "Var f val name usage = Inr f' \<Longrightarrow>
     formal f' = AList.update name
        \<lparr>flag_Name = name, flag_Usage = usage, flag_Value = val\<rparr> (formal f) \<and>
     map_of (formal f) name = None \<and>
     actual f' = actual f \<and> fs_name f' = fs_name f \<and> errorHandling f' = errorHandling f \<and>
     fs_args f' = fs_args f \<and> parsed f' = parsed f"
  by (auto simp: Var_def split: if_splits)

lemma Var_abort:
  "Var f val name usage = Inl a \<Longrightarrow>
     a = Panic (FlagBeginsWithMinus name) \<or> a = Panic (FlagContainsEquals name) \<or>
     a = Panic (FlagRedefined (fs_name f) name)"
  by (auto simp: Var_def split: if_splits)

text \<open>A kind for which the registrar defines flags.\<close>

definition scalar :: "Kind \<Rightarrow> bool" where
  "scalar k = (k = reflect_Bool \<or> k = reflect_Int \<or> k = reflect_String)"

text \<open>The flag value that the registrar creates for a field of a kind, at an address.\<close>

fun value_for :: "Kind \<Rightarrow> addr \<Rightarrow> FlagValue" where
  "value_for reflect_Bool p = boolValue p"
| "value_for reflect_Int p = intValue p"
| "value_for k p = stringValue p"

lemma registrar_other: "\<not> scalar k \<Longrightarrow> registrar k sf fh = Inr fh"
  by (cases k) (simp_all add: registrar_def scalar_def split: prod.splits)

lemma registrar_scalar_Var:
  assumes "scalar k"
  shows "(case registrar k sf fh of Inl a \<Rightarrow> Inl a | Inr fh' \<Rightarrow> Inr (fst fh')) =
     (case Var (fst fh) (value_for k (next_addr (snd fh))) (ToLower (Name sf))
             (Tag_Get (Tag sf) ''usage'') of
        Inl a \<Rightarrow> Inl a
      | Inr f1 \<Rightarrow>
          Var f1 (value_for k (next_addr (snd fh))) (Tag_Get (Tag sf) ''short'')
            (Tag_Get (Tag sf) ''usage'' @ '' (shorthand)''))"
proof (cases k)
  case reflect_Bool
  then show ?thesis
    by (simp add: registrar_def new_var_def BoolVar_def Let_def split: sum.splits)
next
  case reflect_Int
  then show ?thesis
    by (simp add: registrar_def new_var_def IntVar_def Let_def split: sum.splits)
next
  case reflect_String
  then show ?thesis
    by (simp add: registrar_def new_var_def StringVar_def Let_def split: sum.splits)
qed (use assms in \<open>simp_all add: scalar_def\<close>)

lemma registrar_abort:
  assumes "registrar k sf fh = Inl a"
  shows "a \<noteq> Panic IndexOutOfRange"
proof (cases "scalar k")
  case False
  with assms show ?thesis by (simp add: registrar_other)
next
  case True
  from registrar_scalar_Var [OF True, of sf fh] assms show ?thesis
    by (auto split: sum.splits dest!: Var_abort Var_abort [OF sym])
qed

lemma Var_names:
  "Var f val name usage = Inr f' \<Longrightarrow>
     fst ` set (formal f') = insert name (fst ` set (formal f))"
  by (drule Var_result) (simp add: dom_update)

lemma registrar_names:
  assumes "registrar k sf fh = Inr fh'"
  shows "fst ` set (formal (fst fh')) =
           fst ` set (formal (fst fh)) \<union>
           (if scalar k then {ToLower (Name sf), Tag_Get (Tag sf) ''short''} else {})"
proof (cases "scalar k")
  case False
  with assms show ?thesis by (simp add: registrar_other)
next
  case True
  from registrar_scalar_Var [OF True, of sf fh] assms obtain f1 where
    "Var (fst fh) (value_for k (next_addr (snd fh))) (ToLower (Name sf))
       (Tag_Get (Tag sf) ''usage'') = Inr f1"
    "Var f1 (value_for k (next_addr (snd fh))) (Tag_Get (Tag sf) ''short'')
       (Tag_Get (Tag sf) ''usage'' @ '' (shorthand)'') = Inr (fst fh')"
    by (auto split: sum.splits)
  from Var_names [OF this(1)] Var_names [OF this(2)] True show ?thesis by auto
qed

text \<open>
  C10.  In deep mode \<open>IterFields\<close> calls its callback only for fields inside a nested
  struct, and always with exactly one command: a callback that records its arguments records
  nothing else.  So the callback of \<open>CommandFlagSet\<close>, which reads \<open>currentCmd[0]\<close>,
  never does so on an empty list: \<open>CommandFlagSet\<close> never panics with an index out of
  range.
\<close>

theorem IterFields_deep_one_command:
  "(IterFields True v (\<lambda>field k sf cmd tr. Inr (tr @ [(field, cmd)])) (cmds, []) = Inr (cmds', tr)
      \<longrightarrow> (\<forall>(field, cmd) \<in> set tr. length cmd = 1 \<and> (\<exists>i j. field = Nested i j)))
   \<and> CommandFlagSet c cmdFlags v ch \<noteq> Inl (Panic IndexOutOfRange)"
proof
  let ?rec = "\<lambda>(field :: fieldref) (k :: Kind) (sf :: StructField) (cmd :: string list)
                (tr :: (fieldref \<times> string list) list). (Inr (tr @ [(field, cmd)]) :: abort + _)"
  show "IterFields True v ?rec (cmds, []) = Inr (cmds', tr)
      \<longrightarrow> (\<forall>(field, cmd) \<in> set tr. length cmd = 1 \<and> (\<exists>i j. field = Nested i j))"
  proof
    assume run: "IterFields True v ?rec (cmds, []) = Inr (cmds', tr)"
    obtain fl x where v: "v = (fl, x)" by (cases v)
    from run v obtain fs where x: "x = VStruct fs"
      by (cases x) (simp_all add: IterFields_def)
    from run have rv: "run_visits ?rec (visits True fl 0 fs) [] = Inr tr"
      unfolding v x IterFields_visits by (simp split: sum.splits)
    show "\<forall>(field, cmd) \<in> set tr. length cmd = 1 \<and> (\<exists>i j. field = Nested i j)"
    proof (rule run_visits_invariant [OF rv])
      show "\<forall>(field, cmd) \<in> set []. length cmd = 1 \<and> (\<exists>i j. field = Nested i j)"
        by simp
    next
      fix field k sf cmd and s1 s2 :: "(fieldref \<times> string list) list"
      assume mem: "(field, k, sf, cmd) \<in> set (visits True fl 0 fs)"
        and inv: "\<forall>(field, cmd) \<in> set s1. length cmd = 1 \<and> (\<exists>i j. field = Nested i j)"
        and step: "(Inr (s1 @ [(field, cmd)]) :: abort + _) = Inr s2"
      from deep_visits_mem [OF mem] have "length cmd = 1 \<and> (\<exists>i j. field = Nested i j)"
        by auto
      with inv step
      show "\<forall>(field, cmd) \<in> set s2. length cmd = 1 \<and> (\<exists>i j. field = Nested i j)"
        by auto
    qed
  qed
next
  show "CommandFlagSet c cmdFlags v ch \<noteq> Inl (Panic IndexOutOfRange)"
  proof
    assume bad: "CommandFlagSet c cmdFlags v ch = Inl (Panic IndexOutOfRange)"
    obtain fl x where v: "v = (fl, x)" by (cases v)
    from bad v obtain fs where x: "x = VStruct fs"
      by (cases x) (simp_all add: CommandFlagSet_def IterFields_def)
    from bad have "run_visits (register_command c) (visits True fl 0 fs)
        (NewFlagSet c ExitOnError, snd ch) = Inl (Panic IndexOutOfRange)"
      unfolding v x CommandFlagSet_def IterFields_visits by (simp split: sum.splits)
    from run_visits_abort [OF this] obtain field k sf cmd s1 where
      mem: "(field, k, sf, cmd) \<in> set (visits True fl 0 fs)"
      and call: "register_command c field k sf cmd s1 = Inl (Panic IndexOutOfRange)"
      by blast
    from deep_visits_mem [OF mem] obtain c' where "cmd = [c']" by auto
    with call registrar_abort [of k sf s1 "Panic IndexOutOfRange"] show False
      by (simp add: register_command_def split: if_splits)
  qed
qed

text \<open>
  C8.  The command scope that \<open>CommandFlagSet\<close> builds holds flag definitions only for
  scalar fields of a command group whose lower-cased name is the given command: every name
  defined in the scope is the lower-cased name or the short tag of a bool, int or string
  field inside a struct field of the schema whose lower-cased name equals \<open>cmd\<close>.
\<close>

theorem CommandFlagSet_only_command_fields:
  assumes "CommandFlagSet cmd cmdFlags (fl, VStruct fs) ch = Inr (cmds', cfs, h')"
    and "name \<in> fst ` set (formal cfs)"
  shows "\<exists>m sf nested n st field.
           m < length fs \<and> fs ! m = (sf, VStruct nested) \<and> ToLower (Name sf) = cmd \<and>
           n < length nested \<and> nested ! n = (st, field) \<and>
           (Kind_of field = reflect_Bool \<or> Kind_of field = reflect_Int \<or>
            Kind_of field = reflect_String) \<and>
           (name = ToLower (Name st) \<or> name = Tag_Get (Tag st) ''short'')"
proof -
  let ?Q = "\<lambda>name. \<exists>m sf nested n st field.
           m < length fs \<and> fs ! m = (sf, VStruct nested) \<and> ToLower (Name sf) = cmd \<and>
           n < length nested \<and> nested ! n = (st, field) \<and>
           (Kind_of field = reflect_Bool \<or> Kind_of field = reflect_Int \<or>
            Kind_of field = reflect_String) \<and>
           (name = ToLower (Name st) \<or> name = Tag_Get (Tag st) ''short'')"
  let ?P = "\<lambda>fh :: FlagSet \<times> heap. \<forall>name \<in> fst ` set (formal (fst fh)). ?Q name"
  from assms(1) have rv: "run_visits (register_command cmd) (visits True fl 0 fs)
      (NewFlagSet cmd ExitOnError, snd ch) = Inr (cfs, h')"
    unfolding CommandFlagSet_def IterFields_visits by (simp split: sum.splits)
  have "?P (cfs, h')"
  proof (rule run_visits_invariant [OF rv, where P = ?P])
    show "?P (NewFlagSet cmd ExitOnError, snd ch)" by (simp add: NewFlagSet_def)
  next
    fix field k st c s1 s2
    assume mem: "(field, k, st, c) \<in> set (visits True fl 0 fs)"
      and inv: "?P s1" and step: "register_command cmd field k st c s1 = Inr s2"
    from deep_visits_mem [OF mem] obtain m sf nested n x where
      v: "m < length fs" "fs ! m = (sf, VStruct nested)" "n < length nested"
         "nested ! n = (st, x)" "k = Kind_of x" "c = [ToLower (Name sf)]"
      by auto
    show "?P s2"
    proof (cases "ToLower (Name sf) = cmd")
      case False
      with step v(6) have "s2 = s1" by (simp add: register_command_def)
      with inv show ?thesis by simp
    next
      case True
      with step v(6) have reg: "registrar k st s1 = Inr s2" by (simp add: register_command_def)
      show ?thesis
      proof
        fix name assume "name \<in> fst ` set (formal (fst s2))"
        with registrar_names [OF reg] consider
            (old) "name \<in> fst ` set (formal (fst s1))"
          | (new) "scalar k" "name = ToLower (Name st) \<or> name = Tag_Get (Tag st) ''short''"
          by (auto split: if_splits)
        then show "?Q name"
        proof cases
          case old
          with inv show ?thesis by blast
        next
          case new
          with v True show ?thesis unfolding scalar_def by blast
        qed
      qed
    qed
  qed
  with assms(2) show ?thesis by (simp only: fst_conv)
qed

section \<open>The schema of the README\<close>

definition field_of :: "string \<Rightarrow> string \<Rightarrow> string \<Rightarrow> Value \<Rightarrow> StructField \<times> Value" where
  "field_of name short usage x =
     (\<lparr>Name = name, Tag = [(''short'', short), (''usage'', usage)], exported = True,
       defined_type = False\<rparr>, x)"

definition command_of :: "string \<Rightarrow> (StructField \<times> Value) list \<Rightarrow> StructField \<times> Value" where
  "command_of name nested =
     (\<lparr>Name = name, Tag = [], exported = True, defined_type = False\<rparr>, VStruct nested)"

definition readme_Schema :: Value where
  "readme_Schema = VStruct
     [field_of ''Debug'' ''d'' ''enable debug level logs'' (VBool False),
      field_of ''Number'' ''n'' ''a number field'' (VInt 0),
      field_of ''Message'' ''m'' ''a message field'' (VString ''''),
      command_of ''Foo''
        [field_of ''AAA'' ''a'' ''does A'' (VString ''''),
         field_of ''BBB'' ''b'' ''does B'' (VString '''')],
      command_of ''Bar'' [field_of ''CCC'' ''c'' ''does C'' (VBool False)]]"

definition empty_heap :: heap where
  "empty_heap = \<lparr>bools = (\<lambda>p. False), ints = (\<lambda>p. 0), strs = (\<lambda>p. []), next_addr = 0\<rparr>"

definition addressable :: rflag where
  "addressable = \<lparr>flagAddr = True, flagRO = False\<rparr>"

text \<open>The walk of C10 and the scope of C8 on the schema of the README.\<close>

theorem IterFields_deep_one_command_witness:
  "IterFields True (addressable, readme_Schema)
         (\<lambda>field k sf cmd tr. Inr (tr @ [(field, cmd)])) ([], []) =
       Inr ([(''foo'', True), (''bar'', True)],
            [(Nested 3 0, [''foo'']), (Nested 3 1, [''foo'']), (Nested 4 0, [''bar''])])
   \<and> list_all (\<lambda>(field, cmd). length cmd = 1 \<and> (\<exists>i j. field = Nested i j))
         [(Nested 3 0, [''foo'']), (Nested 3 1, [''foo'']), (Nested 4 0, [''bar''])]
   \<and> CommandFlagSet ''foo'' [''-a'', ''x''] (addressable, readme_Schema) ([], empty_heap)
         \<noteq> Inl (Panic IndexOutOfRange)"
proof -
  have run: "IterFields True (addressable, readme_Schema)
         (\<lambda>field k sf cmd tr. Inr (tr @ [(field, cmd)])) ([], []) =
       Inr ([(''foo'', True), (''bar'', True)],
            [(Nested 3 0, [''foo'']), (Nested 3 1, [''foo'']), (Nested 4 0, [''bar''])])"
    by code_simp
  from IterFields_deep_one_command [of "(addressable, readme_Schema)" "[]"
      "[(''foo'', True), (''bar'', True)]"
      "[(Nested 3 0, [''foo'']), (Nested 3 1, [''foo'']), (Nested 4 0, [''bar''])]"
      "''foo''" "[''-a'', ''x'']" "([], empty_heap)"] run
  show ?thesis by (simp only: list_all_iff) blast
qed

theorem CommandFlagSet_only_command_fields_witness:
  "\<exists>cmds' cfs h'.
     CommandFlagSet ''foo'' [''-a'', ''x''] (addressable, readme_Schema) ([], empty_heap)
       = Inr (cmds', cfs, h') \<and>
     map fst (formal cfs) = [''aaa'', ''a'', ''bbb'', ''b''] \<and>
     (\<exists>m sf nested n st field.
        m < length (struct_fields readme_Schema) \<and>
        struct_fields readme_Schema ! m = (sf, VStruct nested) \<and> ToLower (Name sf) = ''foo'' \<and>
        n < length nested \<and> nested ! n = (st, field) \<and>
        (Kind_of field = reflect_Bool \<or> Kind_of field = reflect_Int \<or>
         Kind_of field = reflect_String) \<and>
        (''b'' = ToLower (Name st) \<or> ''b'' = Tag_Get (Tag st) ''short''))"
proof -
  have "case CommandFlagSet ''foo'' [''-a'', ''x''] (addressable, readme_Schema) ([], empty_heap) of
          Inl a \<Rightarrow> False
        | Inr (c, cfs, h) \<Rightarrow> map fst (formal cfs) = [''aaa'', ''a'', ''bbb'', ''b'']"
    by code_simp
  then obtain c cfs h where
    run: "CommandFlagSet ''foo'' [''-a'', ''x''] (addressable, readme_Schema) ([], empty_heap)
       = Inr (c, cfs, h)"
    and names: "map fst (formal cfs) = [''aaa'', ''a'', ''bbb'', ''b'']"
    by (auto split: sum.splits)
  have s: "readme_Schema = VStruct (struct_fields readme_Schema)"
    by (simp add: readme_Schema_def)
  from names have "set (map fst (formal cfs)) = set [''aaa'', ''a'', ''bbb'', ''b'']" by simp
  then have mem: "''b'' \<in> fst ` set (formal cfs)" by simp
  from CommandFlagSet_only_command_fields [of "''foo''" "[''-a'', ''x'']" addressable
      "struct_fields readme_Schema" "([], empty_heap)" c cfs h "''b''"] run mem s names
  show ?thesis by (intro exI [of _ c] exI [of _ cfs] exI [of _ h]) simp
qed

section \<open>How Parse ends\<close>

lemma parseOne_errorHandling:
  "errorHandling (fst (snd (parseOne ParseInt fh))) = errorHandling (fst fh)"
  by (simp add: parseOne_def Let_def split: list.splits option.splits prod.splits)

lemma Parse_loop_errorHandling:
  "Parse_loop ParseInt fh = Inr (err, fh') \<Longrightarrow>
     errorHandling (fst fh') = errorHandling (fst fh)"
proof (induction ParseInt fh rule: Parse_loop.induct)
  case (1 ParseInt fh)
  obtain seen e fh1 where p: "parseOne ParseInt fh = ((seen, e), fh1)"
    by (metis prod.exhaust)
  from parseOne_errorHandling [of ParseInt fh] p
  have eh: "errorHandling (fst fh1) = errorHandling (fst fh)" by simp
  show ?case
  proof (cases seen)
    case True
    with "1.prems" p have "Parse_loop ParseInt fh1 = Inr (err, fh')"
      by (simp add: Parse_loop.simps [of ParseInt fh])
    from "1.IH" [OF p [symmetric] refl True this] eh show ?thesis by simp
  next
    case False
    with "1.prems" p eh show ?thesis
      by (auto simp: Parse_loop.simps [of ParseInt fh]
            split: option.splits ErrorHandling.splits)
  qed
qed

text \<open>
  A flag set with \<open>ExitOnError\<close> never returns an error from \<open>Parse\<close>: it returns nil, or
  the process exits with status 0 or 2.
\<close>

lemma Parse_loop_ExitOnError:
  "errorHandling (fst fh) = ExitOnError \<Longrightarrow>
     (\<exists>fh'. Parse_loop ParseInt fh = Inr (None, fh')) \<or>
     Parse_loop ParseInt fh = Inl (OsExit 0) \<or> Parse_loop ParseInt fh = Inl (OsExit 2)"
proof (induction ParseInt fh rule: Parse_loop.induct)
  case (1 ParseInt fh)
  obtain seen e fh1 where p: "parseOne ParseInt fh = ((seen, e), fh1)"
    by (metis prod.exhaust)
  from parseOne_errorHandling [of ParseInt fh] p "1.prems"
  have eh: "errorHandling (fst fh1) = ExitOnError" by simp
  show ?case
  proof (cases seen)
    case True
    with p have "Parse_loop ParseInt fh = Parse_loop ParseInt fh1"
      by (simp add: Parse_loop.simps [of ParseInt fh])
    with "1.IH" [OF p [symmetric] refl True eh] show ?thesis by simp
  next
    case False
    with p eh show ?thesis
      by (auto simp: Parse_loop.simps [of ParseInt fh] split: option.splits)
  qed
qed

lemma parseOne_errorHandling_update:
  "parseOne ParseInt (f\<lparr>errorHandling := eh\<rparr>, h) =
     (case parseOne ParseInt (f, h) of
        (res, f', h') \<Rightarrow> (res, f'\<lparr>errorHandling := eh\<rparr>, h'))"
  by (simp add: parseOne_def Let_def split: list.splits option.splits prod.splits)

lemma Parse_loop_Continue_Exit:
  "Parse_loop ParseInt (fst fh\<lparr>errorHandling := ContinueOnError\<rparr>, snd fh) = Inr (Some e, fh')
   \<Longrightarrow> Parse_loop ParseInt (fst fh\<lparr>errorHandling := ExitOnError\<rparr>, snd fh)
         = Inl (OsExit (if e = ErrHelp then 0 else 2))"
proof (induction ParseInt fh rule: Parse_loop.induct)
  case (1 ParseInt fh)
  obtain seen err f1 h1 where p: "parseOne ParseInt fh = ((seen, err), f1, h1)"
    by (metis prod.exhaust)
  have pc: "parseOne ParseInt (fst fh\<lparr>errorHandling := ContinueOnError\<rparr>, snd fh)
      = ((seen, err), f1\<lparr>errorHandling := ContinueOnError\<rparr>, h1)"
    and pe: "parseOne ParseInt (fst fh\<lparr>errorHandling := ExitOnError\<rparr>, snd fh)
      = ((seen, err), f1\<lparr>errorHandling := ExitOnError\<rparr>, h1)"
    by (simp_all add: parseOne_errorHandling_update p)
  show ?case
  proof (cases seen)
    case True
    from "1.prems" pc True
    have "Parse_loop ParseInt (fst (f1, h1)\<lparr>errorHandling := ContinueOnError\<rparr>, snd (f1, h1))
        = Inr (Some e, fh')"
      by (simp add: Parse_loop.simps [of ParseInt "(fst fh\<lparr>errorHandling := ContinueOnError\<rparr>, snd fh)"])
    from "1.IH" [of "(seen, err)" "(f1, h1)" seen err, OF _ refl True this] p
    have "Parse_loop ParseInt (f1\<lparr>errorHandling := ExitOnError\<rparr>, h1)
        = Inl (OsExit (if e = ErrHelp then 0 else 2))"
      by simp
    with pe True show ?thesis
      by (simp add: Parse_loop.simps [of ParseInt "(fst fh\<lparr>errorHandling := ExitOnError\<rparr>, snd fh)"])
  next
    case False
    from "1.prems" pc False have "err = Some e"
      by (simp add: Parse_loop.simps [of ParseInt "(fst fh\<lparr>errorHandling := ContinueOnError\<rparr>, snd fh)"]
            split: option.splits)
    with pe False show ?thesis
      by (simp add: Parse_loop.simps [of ParseInt "(fst fh\<lparr>errorHandling := ExitOnError\<rparr>, snd fh)"])
  qed
qed

lemma registrar_errorHandling:
  assumes "registrar k sf fh = Inr fh'"
  shows "errorHandling (fst fh') = errorHandling (fst fh)"
proof (cases "scalar k")
  case False
  with assms show ?thesis by (simp add: registrar_other)
next
  case True
  from registrar_scalar_Var [OF True, of sf fh] assms obtain f1 where
    "Var (fst fh) (value_for k (next_addr (snd fh))) (ToLower (Name sf))
       (Tag_Get (Tag sf) ''usage'') = Inr f1"
    "Var f1 (value_for k (next_addr (snd fh))) (Tag_Get (Tag sf) ''short'')
       (Tag_Get (Tag sf) ''usage'' @ '' (shorthand)'') = Inr (fst fh')"
    by (auto split: sum.splits)
  from Var_result [OF this(1)] Var_result [OF this(2)] show ?thesis by simp
qed

lemma CommandFlagSet_errorHandling:
  assumes "CommandFlagSet cmd cmdFlags v ch = Inr (cmds', cfs)"
  shows "errorHandling (fst cfs) = ExitOnError"
proof -
  obtain fl x where v: "v = (fl, x)" by (cases v)
  from assms v obtain fs where x: "x = VStruct fs"
    by (cases x) (simp_all add: CommandFlagSet_def IterFields_def)
  from assms have rv: "run_visits (register_command cmd) (visits True fl 0 fs)
      (NewFlagSet cmd ExitOnError, snd ch) = Inr cfs"
    unfolding v x CommandFlagSet_def IterFields_visits by (auto split: sum.splits)
  show ?thesis
  proof (rule run_visits_invariant [OF rv, where P = "\<lambda>fh. errorHandling (fst fh) = ExitOnError"])
    show "errorHandling (fst (NewFlagSet cmd ExitOnError, snd ch)) = ExitOnError"
      by (simp add: NewFlagSet_def)
  next
    fix field k sf c s1 s2
    assume "errorHandling (fst s1) = ExitOnError"
      and "register_command cmd field k sf c s1 = Inr s2"
    then show "errorHandling (fst s2) = ExitOnError"
      by (auto simp: register_command_def split: list.splits if_splits
            dest: registrar_errorHandling)
  qed
qed

text \<open>The steps of a call of \<open>Parse\<close> that returns, once the struct is there.\<close>

lemma Parse_struct_returns:
  assumes "Parse_struct ParseInt w s args v = Inr r"
  obtains cmds1 fh1 ignored fh2 cmds2 schema1 cmd cmds3 cfs0 err cfs where
    "IterFields False v register_global (pkg_cmds w, (CommandLine w, store w)) = Inr (cmds1, fh1)"
    "FlagSet_Parse ParseInt fh1 args = Inr (ignored, fh2)"
    "IterFields False v (bind_field fh2) (cmds1, snd v) = Inr (cmds2, schema1)"
    "IdentifyCommand cmds2 args = Inr cmd"
    "CommandFlagSet cmd (CommandFlags cmd (fs_args (fst fh2))) v (cmds2, snd fh2)
       = Inr (cmds3, cfs0)"
    "FlagSet_Parse ParseInt cfs0 (CommandFlags cmd (fs_args (fst fh2))) = Inr (err, cfs)"
    "(\<exists>e. err = Some e \<and>
        r = \<lparr>r_err = Some e,
             r_world = w\<lparr>pkg_cmds := cmds3, CommandLine := fst fh2, store := snd cfs\<rparr>,
             r_schema = pointee_update s schema1, r_cfs = Some (fst cfs)\<rparr>) \<or>
     (err = None \<and>
       (\<exists>cmds4 schema2.
          IterFields True v (bind_field cfs) (cmds3, schema1) = Inr (cmds4, schema2) \<and>
          r = \<lparr>r_err = None,
               r_world = w\<lparr>pkg_cmds := cmds4, CommandLine := fst fh2, store := snd cfs\<rparr>,
               r_schema = pointee_update s schema2, r_cfs = Some (fst cfs)\<rparr>))"
proof -
  from assms obtain cmds1 fh1 where
    s1: "IterFields False v register_global (pkg_cmds w, (CommandLine w, store w))
           = Inr (cmds1, fh1)"
    by (cases "IterFields False v register_global (pkg_cmds w, (CommandLine w, store w))")
       (auto simp: Parse_struct_def)
  from assms s1 obtain ignored fh2 where
    s2: "FlagSet_Parse ParseInt fh1 args = Inr (ignored, fh2)"
    by (cases "FlagSet_Parse ParseInt fh1 args") (auto simp: Parse_struct_def)
  from assms s1 s2 obtain cmds2 schema1 where
    s3: "IterFields False v (bind_field fh2) (cmds1, snd v) = Inr (cmds2, schema1)"
    by (cases "IterFields False v (bind_field fh2) (cmds1, snd v)")
       (auto simp: Parse_struct_def)
  from assms s1 s2 s3 obtain cmd where
    s4: "IdentifyCommand cmds2 args = Inr cmd"
    by (cases "IdentifyCommand cmds2 args") (auto simp: Parse_struct_def)
  let ?cmdFlags = "CommandFlags cmd (fs_args (fst fh2))"
  from assms s1 s2 s3 s4 obtain cmds3 cfs0 where
    s5: "CommandFlagSet cmd ?cmdFlags v (cmds2, snd fh2) = Inr (cmds3, cfs0)"
    by (cases "CommandFlagSet cmd ?cmdFlags v (cmds2, snd fh2)")
       (auto simp: Parse_struct_def Let_def)
  from assms s1 s2 s3 s4 s5 obtain err cfs where
    s6: "FlagSet_Parse ParseInt cfs0 ?cmdFlags = Inr (err, cfs)"
    by (cases "FlagSet_Parse ParseInt cfs0 ?cmdFlags") (auto simp: Parse_struct_def Let_def)
  from assms s1 s2 s3 s4 s5 s6 have
    "(\<exists>e. err = Some e \<and>
        r = \<lparr>r_err = Some e,
             r_world = w\<lparr>pkg_cmds := cmds3, CommandLine := fst fh2, store := snd cfs\<rparr>,
             r_schema = pointee_update s schema1, r_cfs = Some (fst cfs)\<rparr>) \<or>
     (err = None \<and>
       (\<exists>cmds4 schema2.
          IterFields True v (bind_field cfs) (cmds3, schema1) = Inr (cmds4, schema2) \<and>
          r = \<lparr>r_err = None,
               r_world = w\<lparr>pkg_cmds := cmds4, CommandLine := fst fh2, store := snd cfs\<rparr>,
               r_schema = pointee_update s schema2, r_cfs = Some (fst cfs)\<rparr>))"
    by (cases err; cases "IterFields True v (bind_field cfs) (cmds3, schema1)")
       (auto simp: Parse_struct_def Let_def)
  with s1 s2 s3 s4 s5 s6 show thesis by (rule that)
qed

lemma Parse_returns:
  assumes "Parse ParseInt w s = Inr r"
  shows "r = \<lparr>r_err = Some ErrNoArgs, r_world = w, r_schema = s, r_cfs = None\<rparr> \<or>
         r = \<lparr>r_err = Some ErrWrongType, r_world = w, r_schema = s, r_cfs = None\<rparr> \<or>
         (\<exists>fl fs. Indirect_ValueOf s = Some (fl, VStruct fs) \<and> tl (os_Args w) \<noteq> [] \<and>
            Parse_struct ParseInt w s (tl (os_Args w)) (fl, VStruct fs) = Inr r)"
proof -
  from assms have ne: "os_Args w \<noteq> []" by (auto simp: Parse_def)
  show ?thesis
  proof (cases "tl (os_Args w) = []")
    case True
    with assms ne show ?thesis by (simp add: Parse_def drop_Suc)
  next
    case False
    with assms ne obtain v where v: "Indirect_ValueOf s = Some v"
      by (cases "Indirect_ValueOf s") (auto simp: Parse_def drop_Suc)
    obtain fl x where vx: "v = (fl, x)" by (cases v)
    show ?thesis
    proof (cases "Kind_of x = reflect_Struct")
      case True
      then obtain fs where "x = VStruct fs" by (cases x) simp_all
      with assms ne False v vx show ?thesis by (simp add: Parse_def drop_Suc)
    next
      case nostruct: False
      with assms ne False v vx show ?thesis by (simp add: Parse_def drop_Suc)
    qed
  qed
qed

text \<open>
  C2 (as the code has it).  \<open>Parse\<close> never returns an error of the flag package.  The
  command scope is made with \<open>flag.ExitOnError\<close>, so a failure of its \<open>Parse\<close> ends the
  process (status 2, or 0 after the help request) and \<open>err\<close> is always nil;
  \<open>flag.Parse()\<close> has no result, and a failure of the global pass ends the process in
  the same way when \<open>flag.CommandLine\<close> has its standard \<open>ExitOnError\<close>.  The only
  errors that \<open>Parse\<close> returns are \<open>ErrNoArgs\<close> and \<open>ErrWrongType\<close>.
\<close>

theorem Parse_flag_errors_exit:
  "(Parse ParseInt w s = Inr r \<longrightarrow>
      r_err r = None \<or> r_err r = Some ErrNoArgs \<or> r_err r = Some ErrWrongType)
   \<and> (errorHandling f = ExitOnError \<longrightarrow>
        (\<exists>fh'. FlagSet_Parse ParseInt (f, h) arguments = Inr (None, fh')) \<or>
        FlagSet_Parse ParseInt (f, h) arguments = Inl (OsExit 0) \<or>
        FlagSet_Parse ParseInt (f, h) arguments = Inl (OsExit 2))
   \<and> (CommandFlagSet cmd cmdFlags v ch = Inr (cmds', cfs, h') \<longrightarrow>
        errorHandling cfs = ExitOnError)
   \<and> (FlagSet_Parse ParseInt (f\<lparr>errorHandling := ContinueOnError\<rparr>, h) arguments
          = Inr (Some e, fh') \<longrightarrow>
        FlagSet_Parse ParseInt (f\<lparr>errorHandling := ExitOnError\<rparr>, h) arguments
          = Inl (OsExit (if e = ErrHelp then 0 else 2)))"
proof (intro conjI impI)
  assume run: "Parse ParseInt w s = Inr r"
  from Parse_returns [OF run]
  show "r_err r = None \<or> r_err r = Some ErrNoArgs \<or> r_err r = Some ErrWrongType"
  proof (elim disjE exE conjE)
    fix fl fs
    assume "Parse_struct ParseInt w s (tl (os_Args w)) (fl, VStruct fs) = Inr r"
    then show ?thesis
    proof (rule Parse_struct_returns)
      fix cmds2 fh2 cmd cmds3 cfs0 err cfs and schema1 :: Value
      assume c: "CommandFlagSet cmd (CommandFlags cmd (fs_args (fst fh2))) (fl, VStruct fs)
                   (cmds2, snd fh2) = Inr (cmds3, cfs0)"
        and p: "FlagSet_Parse ParseInt cfs0 (CommandFlags cmd (fs_args (fst fh2)))
                   = Inr (err, cfs)"
        and r: "(\<exists>e. err = Some e \<and>
            r = \<lparr>r_err = Some e,
               r_world = w\<lparr>pkg_cmds := cmds3, CommandLine := fst fh2, store := snd cfs\<rparr>,
               r_schema = pointee_update s schema1, r_cfs = Some (fst cfs)\<rparr>) \<or>
          (err = None \<and>
            (\<exists>cmds4 schema2.
              IterFields True (fl, VStruct fs) (bind_field cfs) (cmds3, schema1)
                = Inr (cmds4, schema2) \<and>
              r = \<lparr>r_err = None,
               r_world = w\<lparr>pkg_cmds := cmds4, CommandLine := fst fh2, store := snd cfs\<rparr>,
               r_schema = pointee_update s schema2, r_cfs = Some (fst cfs)\<rparr>))"
      from CommandFlagSet_errorHandling [OF c]
      have "errorHandling (fst (fst cfs0\<lparr>parsed := True,
              fs_args := CommandFlags cmd (fs_args (fst fh2))\<rparr>, snd cfs0)) = ExitOnError"
        by simp
      from Parse_loop_ExitOnError [OF this, of ParseInt] p have "err = None"
        by (auto simp: FlagSet_Parse_def)
      with r show ?thesis by auto
    qed
  qed simp_all
next
  assume "errorHandling f = ExitOnError"
  then show "(\<exists>fh'. FlagSet_Parse ParseInt (f, h) arguments = Inr (None, fh')) \<or>
        FlagSet_Parse ParseInt (f, h) arguments = Inl (OsExit 0) \<or>
        FlagSet_Parse ParseInt (f, h) arguments = Inl (OsExit 2)"
    unfolding FlagSet_Parse_def by (intro Parse_loop_ExitOnError) simp
next
  assume "CommandFlagSet cmd cmdFlags v ch = Inr (cmds', cfs, h')"
  from CommandFlagSet_errorHandling [OF this] show "errorHandling cfs = ExitOnError" by simp
next
  assume "FlagSet_Parse ParseInt (f\<lparr>errorHandling := ContinueOnError\<rparr>, h) arguments
          = Inr (Some e, fh')"
  then show "FlagSet_Parse ParseInt (f\<lparr>errorHandling := ExitOnError\<rparr>, h) arguments
          = Inl (OsExit (if e = ErrHelp then 0 else 2))"
  proof -
    have eq: "f\<lparr>errorHandling := eh, parsed := True, fs_args := arguments\<rparr>
        = f\<lparr>parsed := True, fs_args := arguments, errorHandling := eh\<rparr>" for eh
      by simp
    assume "FlagSet_Parse ParseInt (f\<lparr>errorHandling := ContinueOnError\<rparr>, h) arguments
          = Inr (Some e, fh')"
    then have "Parse_loop ParseInt
        (fst (f\<lparr>parsed := True, fs_args := arguments\<rparr>, h)\<lparr>errorHandling := ContinueOnError\<rparr>,
         snd (f\<lparr>parsed := True, fs_args := arguments\<rparr>, h)) = Inr (Some e, fh')"
      by (simp only: FlagSet_Parse_def fst_conv snd_conv eq)
    from Parse_loop_Continue_Exit [OF this] show ?thesis
      by (simp only: FlagSet_Parse_def fst_conv snd_conv eq)
  qed
qed


text \<open>
  The world of the README's example: the program is started with the given arguments, no
  command is known yet, and \<open>flag.CommandLine\<close> is as package flag makes it.  The
  \<open>ParseInt\<close> of the examples knows the numbers 123 and 666.
\<close>

definition readme_world :: "string list \<Rightarrow> world" where
  "readme_world args =
     \<lparr>os_Args = ''your_app'' # args, pkg_cmds = [],
      CommandLine = NewFlagSet ''your_app'' ExitOnError, store = empty_heap\<rparr>"

definition ParseInt_example :: "string \<Rightarrow> int \<times> bool" where
  "ParseInt_example str =
     (if str = ''123'' then (123, False) else if str = ''666'' then (666, False)
      else (0, True))"

theorem Parse_flag_errors_exit_witness:
  "(\<exists>r. Parse ParseInt_example (readme_world [''-debug'', ''foo'', ''-a'', ''x''])
           (iface_ptr (Some readme_Schema)) = Inr r \<and> r_err r = None)
   \<and> (\<exists>cmds' cfs h'.
         CommandFlagSet ''foo'' [''-zzz''] (addressable, readme_Schema) ([], empty_heap)
           = Inr (cmds', cfs, h') \<and> errorHandling cfs = ExitOnError)
   \<and> FlagSet_Parse ParseInt_example (NewFlagSet ''foo'' ExitOnError, empty_heap) [''-zzz'']
         = Inl (OsExit 2)
   \<and> FlagSet_Parse ParseInt_example (NewFlagSet ''foo'' ExitOnError, empty_heap) [''-h'']
         = Inl (OsExit 0)"
proof -
  have "case Parse ParseInt_example (readme_world [''-debug'', ''foo'', ''-a'', ''x''])
           (iface_ptr (Some readme_Schema)) of Inl a \<Rightarrow> False | Inr r \<Rightarrow> True"
    by code_simp
  then obtain r where run: "Parse ParseInt_example
      (readme_world [''-debug'', ''foo'', ''-a'', ''x'']) (iface_ptr (Some readme_Schema)) = Inr r"
    by (auto split: sum.splits)
  have "case Parse ParseInt_example (readme_world [''-debug'', ''foo'', ''-a'', ''x''])
           (iface_ptr (Some readme_Schema)) of Inl a \<Rightarrow> True
        | Inr r \<Rightarrow> r_err r \<noteq> Some ErrNoArgs \<and> r_err r \<noteq> Some ErrWrongType"
    by code_simp
  with run have ne: "r_err r \<noteq> Some ErrNoArgs" "r_err r \<noteq> Some ErrWrongType" by simp_all
  have "case CommandFlagSet ''foo'' [''-zzz''] (addressable, readme_Schema) ([], empty_heap) of
          Inl a \<Rightarrow> False | Inr x \<Rightarrow> True"
    by code_simp
  then obtain c cfs h where
    cf: "CommandFlagSet ''foo'' [''-zzz''] (addressable, readme_Schema) ([], empty_heap)
           = Inr (c, cfs, h)"
    by (auto split: sum.splits)
  have "(case FlagSet_Parse ParseInt_example
       ((NewFlagSet ''foo'' ExitOnError)\<lparr>errorHandling := ContinueOnError\<rparr>, empty_heap) [''-zzz'']
       of Inl a \<Rightarrow> None | Inr (err, fh) \<Rightarrow> err) = Some (ErrNotDefined ''zzz'')"
    by code_simp
  then have cont: "\<exists>fh. FlagSet_Parse ParseInt_example
       ((NewFlagSet ''foo'' ExitOnError)\<lparr>errorHandling := ContinueOnError\<rparr>, empty_heap) [''-zzz'']
         = Inr (Some (ErrNotDefined ''zzz''), fh)"
    by (auto split: sum.splits)
  have "(case FlagSet_Parse ParseInt_example
       ((NewFlagSet ''foo'' ExitOnError)\<lparr>errorHandling := ContinueOnError\<rparr>, empty_heap) [''-h'']
       of Inl a \<Rightarrow> None | Inr (err, fh) \<Rightarrow> err) = Some ErrHelp"
    by code_simp
  then have hlp: "\<exists>fh. FlagSet_Parse ParseInt_example
       ((NewFlagSet ''foo'' ExitOnError)\<lparr>errorHandling := ContinueOnError\<rparr>, empty_heap) [''-h'']
         = Inr (Some ErrHelp, fh)"
    by (auto split: sum.splits)
  have same: "(NewFlagSet ''foo'' ExitOnError)\<lparr>errorHandling := ExitOnError\<rparr>
      = NewFlagSet ''foo'' ExitOnError"
    by (simp add: NewFlagSet_def)
  from Parse_flag_errors_exit [where ParseInt = ParseInt_example
      and w = "readme_world [''-debug'', ''foo'', ''-a'', ''x'']"
      and s = "iface_ptr (Some readme_Schema)" and r = r] run ne
  have 1: "r_err r = None" by blast
  from Parse_flag_errors_exit [where cmd = "''foo''" and cmdFlags = "[''-zzz'']"
      and v = "(addressable, readme_Schema)" and ch = "([], empty_heap)"
      and cmds' = c and cfs = cfs and h' = h] cf
  have 2: "errorHandling cfs = ExitOnError" by blast
  from cont obtain fh where "FlagSet_Parse ParseInt_example
       ((NewFlagSet ''foo'' ExitOnError)\<lparr>errorHandling := ContinueOnError\<rparr>, empty_heap) [''-zzz'']
         = Inr (Some (ErrNotDefined ''zzz''), fh)" by blast
  with Parse_flag_errors_exit [where ParseInt = ParseInt_example
      and f = "NewFlagSet ''foo'' ExitOnError" and h = empty_heap and arguments = "[''-zzz'']"
      and e = "ErrNotDefined ''zzz''" and fh' = fh] same
  have 3: "FlagSet_Parse ParseInt_example (NewFlagSet ''foo'' ExitOnError, empty_heap) [''-zzz'']
         = Inl (OsExit 2)" by simp
  from hlp obtain fh where "FlagSet_Parse ParseInt_example
       ((NewFlagSet ''foo'' ExitOnError)\<lparr>errorHandling := ContinueOnError\<rparr>, empty_heap) [''-h'']
         = Inr (Some ErrHelp, fh)" by blast
  with Parse_flag_errors_exit [where ParseInt = ParseInt_example
      and f = "NewFlagSet ''foo'' ExitOnError" and h = empty_heap and arguments = "[''-h'']"
      and e = ErrHelp and fh' = fh] same
  have 4: "FlagSet_Parse ParseInt_example (NewFlagSet ''foo'' ExitOnError, empty_heap) [''-h'']
         = Inl (OsExit 0)" by simp
  from run 1 cf 2 3 4 show ?thesis by blast
qed

text \<open>
  The claim as written has a malformed or unknown flag in the command segment returned as
  an error.  On the README's schema the arguments \<open>foo -zzz\<close> make the command scope
  report that \<open>-zzz\<close> is not defined, and \<open>Parse\<close> does not return: the process exits
  with status 2.  The same happens for a bad value in the global segment.
\<close>

theorem Parse_unknown_flag_counterexample:
  "(case Parse ParseInt_example (readme_world [''foo'', ''-zzz''])
           (iface_ptr (Some readme_Schema)) of
      Inl a \<Rightarrow> Some a | Inr r \<Rightarrow> None) = Some (OsExit 2)
   \<and> (case Parse ParseInt_example (readme_world [''-n'', ''abc'', ''foo''])
           (iface_ptr (Some readme_Schema)) of
      Inl a \<Rightarrow> Some a | Inr r \<Rightarrow> None) = Some (OsExit 2)"
  by code_simp

section \<open>The two errors of Parse\<close>

text \<open>
  C6.  When \<open>os.Args\<close> holds the program name only, \<open>Parse\<close> returns \<open>ErrNoArgs\<close>
  at once: the world (with \<open>flag.CommandLine\<close>, the store and \<open>cmds\<close>) and the schema are
  what they were, so no flag has been registered and nothing has been written.
\<close>

theorem Parse_no_arguments:
  "os_Args w = [program] \<Longrightarrow>
     Parse ParseInt w s =
       Inr \<lparr>r_err = Some ErrNoArgs, r_world = w, r_schema = s, r_cfs = None\<rparr>"
  by (simp add: Parse_def)

theorem Parse_no_arguments_witness:
  "os_Args (readme_world []) = [''your_app''] \<and>
   Parse ParseInt_example (readme_world []) (iface_ptr (Some readme_Schema)) =
     Inr \<lparr>r_err = Some ErrNoArgs, r_world = readme_world [],
          r_schema = iface_ptr (Some readme_Schema), r_cfs = None\<rparr>"
proof -
  have a: "os_Args (readme_world []) = [''your_app'']" by (simp add: readme_world_def)
  from Parse_no_arguments [OF a] a show ?thesis by simp
qed

text \<open>
  A value that is there and is not a struct gives \<open>ErrWrongType\<close>, with nothing changed.
\<close>

lemma Parse_wrong_type:
  assumes "os_Args w = program # arg # args" and "Indirect_ValueOf s = Some v"
    and "Kind_of (snd v) \<noteq> reflect_Struct"
  shows "Parse ParseInt w s =
           Inr \<lparr>r_err = Some ErrWrongType, r_world = w, r_schema = s, r_cfs = None\<rparr>"
  using assms by (simp add: Parse_def)

text \<open>
  C7 fails for nil.  With at least one argument, \<open>Parse(nil)\<close> and \<open>Parse\<close> of a nil
  pointer do not return \<open>ErrWrongType\<close>: \<open>v.Type()\<close> is called on the zero \<open>Value\<close>
  before the kind is checked, and panics.
\<close>

theorem Parse_nil_panics:
  "os_Args w = program # arg # args \<Longrightarrow> Indirect_ValueOf s = None \<Longrightarrow>
     Parse ParseInt w s = Inl (Panic TypeOfZeroValue)"
  by (simp add: Parse_def)

theorem Parse_nil_panics_witness:
  "Parse ParseInt_example (readme_world [''-debug'']) iface_nil = Inl (Panic TypeOfZeroValue)
   \<and> Parse ParseInt_example (readme_world [''-debug'']) (iface_ptr None)
        = Inl (Panic TypeOfZeroValue)"
  using Parse_nil_panics [of "readme_world [''-debug'']" "''your_app''" "''-debug''" "[]"
          iface_nil ParseInt_example]
        Parse_nil_panics [of "readme_world [''-debug'']" "''your_app''" "''-debug''" "[]"
          "iface_ptr None" ParseInt_example]
  by (simp add: readme_world_def)

section \<open>What a binding pass does to the schema\<close>

text \<open>
  The binding callback, seen from the field: \<open>fits\<close> says that the type assertion of the
  \<open>switch\<close> succeeds for a field's value and a flag's value, \<open>of_any\<close> is the value
  assigned, and \<open>bind_value\<close> runs through the visited flags for one field.  The passes
  of \<open>Parse\<close> are shown to compute these functions.
\<close>

fun fits :: "Value \<Rightarrow> any \<Rightarrow> bool" where
  "fits (VBool b) (any_bool c) = True"
| "fits (VInt i) (any_int j) = True"
| "fits (VString s) (any_string t) = True"
| "fits x a = False"

fun of_any :: "any \<Rightarrow> Value" where
  "of_any (any_bool b) = VBool b"
| "of_any (any_int i) = VInt i"
| "of_any (any_string s) = VString s"

definition names_match :: "StructField \<Rightarrow> Flag \<Rightarrow> bool" where
  "names_match sf f =
     (flag_Name f = ToLower (Name sf) \<or> flag_Name f = Tag_Get (Tag sf) ''short'')"

fun bind_value :: "heap \<Rightarrow> StructField \<Rightarrow> Flag list \<Rightarrow> Value \<Rightarrow> abort + Value" where
  "bind_value h sf [] x = Inr x"
| "bind_value h sf (f # fs) x =
     (if names_match sf f \<and> fits x (Get h (flag_Value f)) then
        (if defined_type sf then Inl (Panic SetNotAssignable)
         else bind_value h sf fs (of_any (Get h (flag_Value f))))
      else bind_value h sf fs x)"

fun bind_list ::
  "rflag \<Rightarrow> FlagSet \<times> heap \<Rightarrow> (StructField \<times> Value) list \<Rightarrow> abort + (StructField \<times> Value) list"
  where
  "bind_list fl fh [] = Inr []"
| "bind_list fl fh ((sf, x) # rest) =
     (case (if CanSet (Field_flag fl sf) then bind_value (snd fh) sf (Visit (fst fh)) x
            else Inr x) of
        Inl a \<Rightarrow> Inl a
      | Inr x' \<Rightarrow>
          (case bind_list fl fh rest of
             Inl a \<Rightarrow> Inl a
           | Inr rest' \<Rightarrow> Inr ((sf, x') # rest')))"

fun bind_groups ::
  "rflag \<Rightarrow> FlagSet \<times> heap \<Rightarrow> (StructField \<times> Value) list \<Rightarrow> abort + (StructField \<times> Value) list"
  where
  "bind_groups fl fh [] = Inr []"
| "bind_groups fl fh ((sf, x) # rest) =
     (case (if Kind_of x = reflect_Struct \<and> CanInterface (Field_flag fl sf) then
              (case bind_list (Field_flag fl sf) fh (struct_fields x) of
                 Inl a \<Rightarrow> Inl a
               | Inr nested' \<Rightarrow> Inr (VStruct nested'))
            else Inr x) of
        Inl a \<Rightarrow> Inl a
      | Inr x' \<Rightarrow>
          (case bind_groups fl fh rest of
             Inl a \<Rightarrow> Inl a
           | Inr rest' \<Rightarrow> Inr ((sf, x') # rest')))"

lemma fits_Kind: "fits x a \<Longrightarrow> Kind_of (of_any a) = Kind_of x"
  by (cases x; cases a) simp_all

lemma fits_of_any: "fits x a \<Longrightarrow> fits (of_any a) b = fits x b"
  by (cases x; cases a; cases b) simp_all

lemma bind_flag_fits:
  "bind_flag h field (Kind_of x) sf f schema =
     (if names_match sf f \<and> fits x (Get h (flag_Value f))
      then field_Set field sf (of_any (Get h (flag_Value f))) schema
      else Inr schema)"
  by (cases x; cases "Get h (flag_Value f)") (simp_all add: bind_flag_def names_match_def)

text \<open>
  A field sits in the schema; \<open>C\<close> is the schema around it.  Visiting the flags for the
  field changes the field as \<open>bind_value\<close> says and nothing else.
\<close>

lemma visit_each_bind_value:
  assumes "\<And>x y. assign field y (C x) = C y"
  shows "visit_each (bind_flag h field (Kind_of x) sf) flags (C x) =
     (case bind_value h sf flags x of Inl a \<Rightarrow> Inl a | Inr x' \<Rightarrow> Inr (C x'))"
proof (induction flags arbitrary: x)
  case Nil
  show ?case by simp
next
  case (Cons f flags)
  note step = bind_flag_fits [of h field x sf f "C x"]
  show ?case
  proof (cases "names_match sf f \<and> fits x (Get h (flag_Value f))")
    case False
    with step have "bind_flag h field (Kind_of x) sf f (C x) = Inr (C x)" by simp
    with False show ?thesis by (auto simp add: Cons.IH)
  next
    case True
    then have k: "Kind_of x = Kind_of (of_any (Get h (flag_Value f)))"
      using fits_Kind [of x "Get h (flag_Value f)"] by simp
    show ?thesis
    proof (cases "defined_type sf")
      case defined: True
      with step True have "bind_flag h field (Kind_of x) sf f (C x) = Inl (Panic SetNotAssignable)"
        by (simp add: field_Set_def)
      with True defined show ?thesis by simp
    next
      case False
      with step True have "bind_flag h field (Kind_of x) sf f (C x) =
          Inr (C (of_any (Get h (flag_Value f))))"
        by (simp add: field_Set_def assms)
      then have "visit_each (bind_flag h field (Kind_of x) sf) (f # flags) (C x) =
          visit_each (bind_flag h field (Kind_of (of_any (Get h (flag_Value f)))) sf) flags
            (C (of_any (Get h (flag_Value f))))"
        by (simp add: k [symmetric])
      also have "\<dots> = (case bind_value h sf flags (of_any (Get h (flag_Value f))) of
          Inl a \<Rightarrow> Inl a | Inr x' \<Rightarrow> Inr (C x'))"
        by (rule Cons.IH)
      finally show ?thesis using True False by simp
    qed
  qed
qed

lemma assign_Top:
  "length pre = i \<Longrightarrow>
     assign (Top i) y (VStruct (pre @ (sf, x) # post)) = VStruct (pre @ (sf, y) # post)"
  by auto

lemma assign_Nested:
  "length pre = i \<Longrightarrow> length npre = j \<Longrightarrow>
     assign (Nested i j) y (VStruct (pre @ (gsf, VStruct (npre @ (sf, x) # npost)) # post)) =
       VStruct (pre @ (gsf, VStruct (npre @ (sf, y) # npost)) # post)"
  by auto

text \<open>The walk through the fields of one command group.\<close>

lemma IterFields_nested_bind:
  assumes "length pre = i"
  shows "length npre = j \<Longrightarrow>
     IterFields_nested gfl cmd i j rest (bind_field fh)
       (VStruct (pre @ (gsf, VStruct (npre @ rest)) # post)) =
     (case bind_list gfl fh rest of
        Inl a \<Rightarrow> Inl a
      | Inr rest' \<Rightarrow> Inr (VStruct (pre @ (gsf, VStruct (npre @ rest')) # post)))"
proof (induction rest arbitrary: j npre)
  case Nil
  show ?case by simp
next
  case (Cons p rest)
  obtain sf x where p: "p = (sf, x)" by (cases p)
  let ?C = "\<lambda>y. VStruct (pre @ (gsf, VStruct (npre @ (sf, y) # rest)) # post)"
  have C: "\<And>x y. assign (Nested i j) y (?C x) = ?C y"
    using assms Cons.prems by (simp only: assign_Nested)
  have step: "bind_field fh (Nested i j) (Kind_of x) sf [cmd] (?C x) =
      (case bind_value (snd fh) sf (Visit (fst fh)) x of
         Inl a \<Rightarrow> Inl a | Inr x' \<Rightarrow> Inr (?C x'))"
    unfolding bind_field_def by (rule visit_each_bind_value [where C = ?C, OF C])
  have IH: "IterFields_nested gfl cmd i (Suc j) rest (bind_field fh) (?C y) =
      (case bind_list gfl fh rest of
         Inl a \<Rightarrow> Inl a
       | Inr rest' \<Rightarrow> Inr (VStruct (pre @ (gsf, VStruct (npre @ (sf, y) # rest')) # post)))"
    for y
    using Cons.IH [of "npre @ [(sf, y)]" "j + 1"] Cons.prems by (simp split: sum.splits)
  show ?case
    unfolding p by (simp add: step IH split: sum.splits)
qed

lemma IterFields_nested_bind0:
  assumes "length pre = i"
  shows "IterFields_nested gfl cmd i 0 nested (bind_field fh)
       (VStruct (pre @ (gsf, VStruct nested) # post)) =
     (case bind_list gfl fh nested of
        Inl a \<Rightarrow> Inl a
      | Inr nested' \<Rightarrow> Inr (VStruct (pre @ (gsf, VStruct nested') # post)))"
  using IterFields_nested_bind [OF assms, of "[]" 0 gfl cmd nested fh gsf post]
  by (simp split: sum.splits)

text \<open>The shallow pass and the deep pass, walking the schema that they work on.\<close>

lemma bind_value_struct: "Kind_of x = reflect_Struct \<Longrightarrow> bind_value h sf flags x = Inr x"
  by (induction flags) (cases x; simp)+

lemma IterFields_loop_shallow_bind:
  "length pre = i \<Longrightarrow>
     IterFields_loop False fl i rest (bind_field fh) (cmds, VStruct (pre @ rest)) =
     (case bind_list fl fh rest of
        Inl a \<Rightarrow> Inl a
      | Inr rest' \<Rightarrow> Inr (walk_cmds rest cmds, VStruct (pre @ rest')))"
proof (induction rest arbitrary: i pre cmds)
  case Nil
  show ?case by simp
next
  case (Cons p rest)
  obtain sf x where p: "p = (sf, x)" by (cases p)
  let ?C = "\<lambda>y. VStruct (pre @ (sf, y) # rest)"
  have C: "\<And>x y. assign (Top i) y (?C x) = ?C y"
    using Cons.prems by (simp only: assign_Top)
  have step: "bind_field fh (Top i) (Kind_of x) sf [] (?C x) =
      (case bind_value (snd fh) sf (Visit (fst fh)) x of
         Inl a \<Rightarrow> Inl a | Inr x' \<Rightarrow> Inr (?C x'))"
    unfolding bind_field_def by (rule visit_each_bind_value [where C = ?C, OF C])
  have IH: "IterFields_loop False fl (Suc i) rest (bind_field fh) (c, ?C y) =
      (case bind_list fl fh rest of
         Inl a \<Rightarrow> Inl a
       | Inr rest' \<Rightarrow> Inr (walk_cmds rest c, VStruct (pre @ (sf, y) # rest')))"
    for y c
    using Cons.IH [of "pre @ [(sf, y)]" "i + 1" c] Cons.prems by (simp split: sum.splits)
  show ?case
  proof (cases "Kind_of x = reflect_Struct")
    case True
    then show ?thesis
      unfolding p by (simp add: IH bind_value_struct Let_def split: sum.splits)
  next
    case False
    then show ?thesis
      unfolding p by (simp add: step IH split: sum.splits)
  qed
qed

lemma IterFields_loop_deep_bind:
  "length pre = i \<Longrightarrow>
     IterFields_loop True fl i rest (bind_field fh) (cmds, VStruct (pre @ rest)) =
     (case bind_groups fl fh rest of
        Inl a \<Rightarrow> Inl a
      | Inr rest' \<Rightarrow> Inr (walk_cmds rest cmds, VStruct (pre @ rest')))"
proof (induction rest arbitrary: i pre cmds)
  case Nil
  show ?case by simp
next
  case (Cons p rest)
  obtain sf x where p: "p = (sf, x)" by (cases p)
  have IH: "IterFields_loop True fl (Suc i) rest (bind_field fh)
      (c, VStruct (pre @ (sf, y) # rest)) =
      (case bind_groups fl fh rest of
         Inl a \<Rightarrow> Inl a
       | Inr rest' \<Rightarrow> Inr (walk_cmds rest c, VStruct (pre @ (sf, y) # rest')))"
    for y c
    using Cons.IH [of "pre @ [(sf, y)]" "i + 1" c] Cons.prems by (simp split: sum.splits)
  show ?case
  proof (cases "Kind_of x = reflect_Struct")
    case False
    then show ?thesis
      unfolding p by (simp add: IH split: sum.splits)
  next
    case True
    then obtain nested where x: "x = VStruct nested" by (cases x) simp_all
    show ?thesis
      unfolding p x using Cons.prems
      by (simp add: IH IterFields_nested_bind0 Let_def split: sum.splits)
  qed
qed

lemma bind_value_Kind: "bind_value h sf flags x = Inr x' \<Longrightarrow> Kind_of x' = Kind_of x"
proof (induction flags arbitrary: x)
  case Nil
  then show ?case by simp
next
  case (Cons f flags)
  show ?case
  proof (cases "names_match sf f \<and> fits x (Get h (flag_Value f))")
    case True
    with Cons.prems have "bind_value h sf flags (of_any (Get h (flag_Value f))) = Inr x'"
      by (simp split: if_splits)
    from Cons.IH [OF this] True fits_Kind [of x "Get h (flag_Value f)"] show ?thesis by simp
  next
    case False
    with Cons.prems have "bind_value h sf flags x = Inr x'" by auto
    from Cons.IH [OF this] show ?thesis .
  qed
qed


text \<open>
  The value that a binding pass leaves in a field: that of the last visited flag whose name
  matches and whose value fits.
\<close>

lemma bind_value_last:
  assumes "bind_value h sf flags x = Inr x'"
  shows "x' = (case filter (\<lambda>f. names_match sf f \<and> fits x (Get h (flag_Value f))) flags of
                 [] \<Rightarrow> x
               | m # ms \<Rightarrow> of_any (Get h (flag_Value (last (m # ms)))))"
  using assms
proof (induction flags arbitrary: x)
  case Nil
  then show ?case by simp
next
  case (Cons f flags)
  let ?P = "\<lambda>x f. names_match sf f \<and> fits x (Get h (flag_Value f))"
  show ?case
  proof (cases "?P x f")
    case False
    with Cons.prems have "bind_value h sf flags x = Inr x'" by auto
    from Cons.IH [OF this] False show ?thesis by auto
  next
    case True
    let ?y = "of_any (Get h (flag_Value f))"
    from True Cons.prems have run: "bind_value h sf flags ?y = Inr x'"
      by (simp split: if_splits)
    from True have same: "?P ?y = ?P x"
      by (auto simp: fits_of_any fun_eq_iff)
    from Cons.IH [OF run] have "x' = (case filter (?P x) flags of
                 [] \<Rightarrow> ?y
               | m # ms \<Rightarrow> of_any (Get h (flag_Value (last (m # ms)))))"
      unfolding same .
    with True show ?thesis by (auto split: list.splits)
  qed
qed

text \<open>Field by field: what \<open>bind_list\<close> and \<open>bind_groups\<close> return.\<close>

lemma bind_list_all2:
  "bind_list fl fh fs = Inr fs' \<Longrightarrow>
     list_all2 (\<lambda>p p'. fst p' = fst p \<and>
        (if CanSet (Field_flag fl (fst p))
         then bind_value (snd fh) (fst p) (Visit (fst fh)) (snd p) = Inr (snd p')
         else snd p' = snd p)) fs fs'"
proof (induction fs arbitrary: fs')
  case Nil
  then show ?case by simp
next
  case (Cons p fs)
  obtain sf x where p: "p = (sf, x)" by (cases p)
  from Cons.prems obtain x' rest' where
    x': "(if CanSet (Field_flag fl sf) then bind_value (snd fh) sf (Visit (fst fh)) x
          else Inr x) = Inr x'"
    and rest': "bind_list fl fh fs = Inr rest'" and fs': "fs' = (sf, x') # rest'"
    unfolding p by (auto split: sum.splits)
  from Cons.IH [OF rest'] x' show ?case
    unfolding p fs' by (auto split: if_splits)
qed

lemma bind_groups_all2:
  "bind_groups fl fh fs = Inr fs' \<Longrightarrow>
     list_all2 (\<lambda>p p'. fst p' = fst p \<and>
        (if Kind_of (snd p) = reflect_Struct \<and> CanInterface (Field_flag fl (fst p))
         then \<exists>nested'. bind_list (Field_flag fl (fst p)) fh (struct_fields (snd p))
                          = Inr nested' \<and> snd p' = VStruct nested'
         else snd p' = snd p)) fs fs'"
proof (induction fs arbitrary: fs')
  case Nil
  then show ?case by simp
next
  case (Cons p fs)
  obtain sf x where p: "p = (sf, x)" by (cases p)
  from Cons.prems obtain x' rest' where
    x': "(if Kind_of x = reflect_Struct \<and> CanInterface (Field_flag fl sf) then
              (case bind_list (Field_flag fl sf) fh (struct_fields x) of
                 Inl a \<Rightarrow> Inl a
               | Inr nested' \<Rightarrow> Inr (VStruct nested'))
            else Inr x) = Inr x'"
    and rest': "bind_groups fl fh fs = Inr rest'" and fs': "fs' = (sf, x') # rest'"
    unfolding p by (auto split: sum.splits)
  from Cons.IH [OF rest'] x' show ?case
    unfolding p fs' by (auto split: if_splits sum.splits)
qed

text \<open>
  The shallow pass leaves the walk as it is: names, kinds and the struct fields are what
  they were.
\<close>

definition same_walk :: "(StructField \<times> Value) list \<Rightarrow> (StructField \<times> Value) list \<Rightarrow> bool" where
  "same_walk fs fs' =
     list_all2 (\<lambda>p p'. fst p' = fst p \<and> Kind_of (snd p') = Kind_of (snd p) \<and>
        (Kind_of (snd p) = reflect_Struct \<longrightarrow> snd p' = snd p)) fs fs'"

lemma bind_list_same_walk:
  assumes "bind_list fl fh fs = Inr fs'"
  shows "same_walk fs fs'"
  unfolding same_walk_def
proof (rule list_all2_mono [OF bind_list_all2 [OF assms]])
  fix p p' :: "StructField \<times> Value"
  assume a: "fst p' = fst p \<and>
        (if CanSet (Field_flag fl (fst p))
         then bind_value (snd fh) (fst p) (Visit (fst fh)) (snd p) = Inr (snd p')
         else snd p' = snd p)"
  show "fst p' = fst p \<and> Kind_of (snd p') = Kind_of (snd p) \<and>
        (Kind_of (snd p) = reflect_Struct \<longrightarrow> snd p' = snd p)"
  proof (cases "CanSet (Field_flag fl (fst p))")
    case False
    with a show ?thesis by simp
  next
    case True
    with a have b: "bind_value (snd fh) (fst p) (Visit (fst fh)) (snd p) = Inr (snd p')"
      by simp
    from bind_value_Kind [OF b] bind_value_struct [of "snd p" "snd fh" "fst p" "Visit (fst fh)"]
      b a
    show ?thesis by auto
  qed
qed

lemma same_walk_visits:
  "same_walk fs fs' \<Longrightarrow>
     visits True fl i fs' = visits True fl i fs \<and> walk_cmds fs' cmds = walk_cmds fs cmds"
  unfolding same_walk_def
proof (induction fs fs' arbitrary: i cmds rule: list_all2_induct)
  case Nil
  show ?case by simp
next
  case (Cons p fs p' fs')
  obtain sf x where p: "p = (sf, x)" by (cases p)
  obtain sf' x' where p': "p' = (sf', x')" by (cases p')
  from Cons.hyps(1) p p' have "sf' = sf" "Kind_of x' = Kind_of x"
    "Kind_of x = reflect_Struct \<Longrightarrow> x' = x"
    by simp_all
  with Cons.IH show ?case unfolding p p' by auto
qed

lemma IterFields_deep_same_walk:
  assumes "same_walk fs fs'"
  shows "IterFields True (fl, VStruct fs) callback cs =
         IterFields True (fl, VStruct fs') callback cs"
proof -
  obtain cmds s where cs: "cs = (cmds, s)" by (cases cs)
  from same_walk_visits [OF assms] show ?thesis
    unfolding cs IterFields_visits by (simp cong: sum.case_cong)
qed

text \<open>The two passes as functions on the fields of the schema.\<close>

lemma shallow_pass:
  "IterFields False (fl, VStruct fs) (bind_field fh) (cmds, VStruct fs) =
     (case bind_list fl fh fs of
        Inl a \<Rightarrow> Inl a
      | Inr fs' \<Rightarrow> Inr (walk_cmds fs cmds, VStruct fs'))"
  using IterFields_loop_shallow_bind [of "[]" 0 fl fs fh cmds]
  by (simp add: IterFields_def cong: sum.case_cong)

lemma deep_pass:
  "IterFields True (fl, VStruct fs) (bind_field fh) (cmds, VStruct fs) =
     (case bind_groups fl fh fs of
        Inl a \<Rightarrow> Inl a
      | Inr fs' \<Rightarrow> Inr (walk_cmds fs cmds, VStruct fs'))"
  using IterFields_loop_deep_bind [of "[]" 0 fl fs fh cmds]
  by (simp add: IterFields_def cong: sum.case_cong)

text \<open>
  A call of \<open>Parse\<close> on a struct that returns: the schema has gone through \<open>bind_list\<close>
  with the flags set in \<open>flag.CommandLine\<close> and then through \<open>bind_groups\<close> with the flags
  set in \<open>cfs\<close>, and the error returned is nil.
\<close>

lemma Parse_struct_schema:
  assumes "Parse_struct ParseInt w s args (fl, VStruct fs) = Inr r"
  obtains h1 cfs fs1 fs2 where
    "bind_list fl (CommandLine (r_world r), h1) fs = Inr fs1"
    "bind_groups fl (cfs, store (r_world r)) fs1 = Inr fs2"
    "r_cfs r = Some cfs" "r_schema r = pointee_update s (VStruct fs2)" "r_err r = None"
  using assms
proof (rule Parse_struct_returns)
  fix cmds1 fh1 ignored fh2 cmds2 schema1 cmd cmds3 cfs0 err cfs
  assume p1: "IterFields False (fl, VStruct fs) (bind_field fh2) (cmds1, snd (fl, VStruct fs))
                = Inr (cmds2, schema1)"
    and c: "CommandFlagSet cmd (CommandFlags cmd (fs_args (fst fh2))) (fl, VStruct fs)
                   (cmds2, snd fh2) = Inr (cmds3, cfs0)"
    and p: "FlagSet_Parse ParseInt cfs0 (CommandFlags cmd (fs_args (fst fh2)))
                   = Inr (err, cfs)"
    and r: "(\<exists>e. err = Some e \<and>
            r = \<lparr>r_err = Some e,
               r_world = w\<lparr>pkg_cmds := cmds3, CommandLine := fst fh2, store := snd cfs\<rparr>,
               r_schema = pointee_update s schema1, r_cfs = Some (fst cfs)\<rparr>) \<or>
          (err = None \<and>
            (\<exists>cmds4 schema2.
              IterFields True (fl, VStruct fs) (bind_field cfs) (cmds3, schema1)
                = Inr (cmds4, schema2) \<and>
              r = \<lparr>r_err = None,
               r_world = w\<lparr>pkg_cmds := cmds4, CommandLine := fst fh2, store := snd cfs\<rparr>,
               r_schema = pointee_update s schema2, r_cfs = Some (fst cfs)\<rparr>))"
  from CommandFlagSet_errorHandling [OF c]
  have "errorHandling (fst (fst cfs0\<lparr>parsed := True,
          fs_args := CommandFlags cmd (fs_args (fst fh2))\<rparr>, snd cfs0)) = ExitOnError"
    by simp
  from Parse_loop_ExitOnError [OF this, of ParseInt] p have "err = None"
    by (auto simp: FlagSet_Parse_def)
  with r obtain cmds4 schema2 where
    p2: "IterFields True (fl, VStruct fs) (bind_field cfs) (cmds3, schema1)
           = Inr (cmds4, schema2)"
    and rr: "r = \<lparr>r_err = None,
               r_world = w\<lparr>pkg_cmds := cmds4, CommandLine := fst fh2, store := snd cfs\<rparr>,
               r_schema = pointee_update s schema2, r_cfs = Some (fst cfs)\<rparr>"
    by auto
  from p1 obtain fs1 where b1: "bind_list fl fh2 fs = Inr fs1" and s1: "schema1 = VStruct fs1"
    by (auto simp: shallow_pass split: sum.splits)
  from p2 have "IterFields True (fl, VStruct fs1) (bind_field cfs) (cmds3, VStruct fs1)
           = Inr (cmds4, schema2)"
    unfolding s1 IterFields_deep_same_walk [OF bind_list_same_walk [OF b1]] .
  then obtain fs2 where b2: "bind_groups fl cfs fs1 = Inr fs2" and s2: "schema2 = VStruct fs2"
    by (auto simp: deep_pass split: sum.splits)
  show thesis
  proof (rule that [of "snd fh2" fs1 "fst cfs" fs2])
    show "bind_list fl (CommandLine (r_world r), snd fh2) fs = Inr fs1"
      using b1 by (simp add: rr)
    show "bind_groups fl (fst cfs, store (r_world r)) fs1 = Inr fs2"
      using b2 by (simp add: rr)
  qed (simp_all add: rr s2)
qed

section \<open>Fields and the flags that have been set\<close>

text \<open>
  The field at a place of a schema, with its \<open>StructField\<close>; the schema that the argument
  of \<open>Parse\<close> refers to; and the flags that have been set (as \<open>Visit\<close> shows them) in the
  scope that a field is bound from: \<open>flag.CommandLine\<close> for a top-level field, \<open>cfs\<close> for
  a field of a command group.
\<close>

fun field_at :: "fieldref \<Rightarrow> Value \<Rightarrow> (StructField \<times> Value) option" where
  "field_at (Top i) (VStruct fs) = (if i < length fs then Some (fs ! i) else None)"
| "field_at (Nested i j) (VStruct fs) =
     (if i < length fs \<and> j < length (struct_fields (snd (fs ! i)))
      then Some (struct_fields (snd (fs ! i)) ! j) else None)"
| "field_at ref x = None"

fun schema_of :: "Iface \<Rightarrow> Value option" where
  "schema_of (iface_ptr (Some x)) = Some x"
| "schema_of (iface_val x) = Some x"
| "schema_of s = None"


lemma bind_list_nth:
  assumes "bind_list fl (f, h) fs = Inr fs'" and "i < length fs" and "fs ! i = (sf, x)"
  shows "length fs' = length fs \<and>
         (\<exists>x'. fs' ! i = (sf, x') \<and>
            (if CanSet (Field_flag fl sf)
             then bind_value h sf (Visit f) x = Inr x' else x' = x))"
proof -
  note a = bind_list_all2 [OF assms(1)]
  from list_all2_nthD [OF a assms(2)] assms(3) list_all2_lengthD [OF a]
  show ?thesis by (cases "fs' ! i") (auto split: if_splits)
qed

lemma bind_groups_nth:
  assumes "bind_groups fl fh fs = Inr fs'" and "i < length fs" and "fs ! i = (sf, x)"
  shows "length fs' = length fs \<and>
         (\<exists>x'. fs' ! i = (sf, x') \<and>
            (if Kind_of x = reflect_Struct \<and> CanInterface (Field_flag fl sf)
             then \<exists>nested'. bind_list (Field_flag fl sf) fh (struct_fields x) = Inr nested' \<and>
                    x' = VStruct nested'
             else x' = x))"
proof -
  note a = bind_groups_all2 [OF assms(1)]
  from list_all2_nthD [OF a assms(2)] assms(3) list_all2_lengthD [OF a]
  show ?thesis by (cases "fs' ! i") auto
qed



text \<open>
  What both passes leave in a field, for a call on a struct that returns.
\<close>

lemma Parse_struct_field:
  assumes run: "Parse_struct ParseInt w s args (fl, VStruct fs) = Inr r"
  obtains h1 cfs fs2 where
    "r_cfs r = Some cfs" "r_schema r = pointee_update s (VStruct fs2)" "r_err r = None"
    "length fs2 = length fs"
    "\<And>i sf x. i < length fs \<Longrightarrow> fs ! i = (sf, x) \<Longrightarrow> Kind_of x \<noteq> reflect_Struct \<Longrightarrow>
       \<exists>x'. fs2 ! i = (sf, x') \<and>
         (if CanSet (Field_flag fl sf)
          then bind_value h1 sf (Visit (CommandLine (r_world r))) x = Inr x' else x' = x)"
    "\<And>i sf x. i < length fs \<Longrightarrow> fs ! i = (sf, x) \<Longrightarrow> Kind_of x = reflect_Struct \<Longrightarrow>
       \<exists>x'. fs2 ! i = (sf, x') \<and>
         (if CanInterface (Field_flag fl sf)
          then \<exists>nested'. bind_list (Field_flag fl sf) (cfs, store (r_world r))
                            (struct_fields x) = Inr nested' \<and> x' = VStruct nested'
          else x' = x)"
  using run
proof (rule Parse_struct_schema)
  fix h1 cfs fs1 fs2
  assume b1: "bind_list fl (CommandLine (r_world r), h1) fs = Inr fs1"
    and b2: "bind_groups fl (cfs, store (r_world r)) fs1 = Inr fs2"
    and r: "r_cfs r = Some cfs" "r_schema r = pointee_update s (VStruct fs2)" "r_err r = None"
  show thesis
  proof (rule that [OF r])
    from list_all2_lengthD [OF bind_list_all2 [OF b1]]
      list_all2_lengthD [OF bind_groups_all2 [OF b2]]
    show "length fs2 = length fs" by simp
  next
    fix i sf x
    assume i: "i < length fs" "fs ! i = (sf, x)" and k: "Kind_of x \<noteq> reflect_Struct"
    from bind_list_nth [OF b1 i] obtain x1 where
      l1: "length fs1 = length fs" and x1: "fs1 ! i = (sf, x1)"
      and v1: "if CanSet (Field_flag fl sf)
          then bind_value h1 sf (Visit (CommandLine (r_world r))) x = Inr x1 else x1 = x"
      by auto
    from v1 k have k1: "Kind_of x1 \<noteq> reflect_Struct"
      by (auto dest: bind_value_Kind split: if_splits)
    from bind_groups_nth [OF b2 _ x1] i(1) l1 k1 have "fs2 ! i = (sf, x1)" by auto
    with v1 show "\<exists>x'. fs2 ! i = (sf, x') \<and>
         (if CanSet (Field_flag fl sf)
          then bind_value h1 sf (Visit (CommandLine (r_world r))) x = Inr x' else x' = x)"
      by auto
  next
    fix i sf x
    assume i: "i < length fs" "fs ! i = (sf, x)" and k: "Kind_of x = reflect_Struct"
    from bind_list_nth [OF b1 i] obtain x1 where
      l1: "length fs1 = length fs" and x1: "fs1 ! i = (sf, x1)"
      and v1: "if CanSet (Field_flag fl sf)
          then bind_value h1 sf (Visit (CommandLine (r_world r))) x = Inr x1 else x1 = x"
      by auto
    from v1 k bind_value_struct [OF k, of h1 sf "Visit (CommandLine (r_world r))"]
    have "x1 = x" by (auto split: if_splits)
    with bind_groups_nth [OF b2 _ x1] i(1) l1 k
    show "\<exists>x'. fs2 ! i = (sf, x') \<and>
         (if CanInterface (Field_flag fl sf)
          then \<exists>nested'. bind_list (Field_flag fl sf) (cfs, store (r_world r))
                            (struct_fields x) = Inr nested' \<and> x' = VStruct nested'
          else x' = x)"
      by auto
  qed
qed


lemma ToLower_examples:
  "ToLower ''AAA'' = ''aaa''" "ToLower ''BBB'' = ''bbb''" "ToLower ''Number'' = ''number''"
  "ToLower ''Debug'' = ''debug''" "ToLower ''Foo'' = ''foo''" "ToLower ''Bar'' = ''bar''"
  by code_simp+



section \<open>The command pass binds by name\<close>

text \<open>
  C9 (as the code has it).  The second binding pass walks every command group and matches
  by name only.  For a settable field \<open>sf\<close> of any command group, the active one or another,
  look at the flags that have been set in the command scope, whose name is the field's
  lower-cased name or its short tag, and whose value has the type of the field's kind: each
  of them is assigned to the field, in the order of \<open>Visit\<close>, so that the field ends with
  the value of the last of them.  A flag with a matching name and a value of another type
  is passed over.
\<close>

theorem command_pass_binds_by_name:
  assumes "Parse ParseInt w (iface_ptr (Some schema)) = Inr r" and "r_cfs r = Some cfs"
    and "field_at (Top i) schema = Some (gsf, VStruct nested)" and "exported gsf"
    and "field_at (Nested i j) schema = Some (sf, x)" and "exported sf"
    and "matching =
           filter (\<lambda>f. (flag_Name f = ToLower (Name sf) \<or>
                          flag_Name f = Tag_Get (Tag sf) ''short'') \<and>
                        fits x (Get (store (r_world r)) (flag_Value f))) (Visit cfs)"
    and "matching \<noteq> []"
  shows "\<exists>schema'. r_schema r = iface_ptr (Some schema') \<and>
           field_at (Nested i j) schema' =
             Some (sf, of_any (Get (store (r_world r)) (flag_Value (last matching))))"
proof -
  let ?fl = "\<lparr>flagAddr = True, flagRO = False\<rparr>"
  from assms(2) Parse_returns [OF assms(1)] obtain fl fs where
    ind: "Indirect_ValueOf (iface_ptr (Some schema)) = Some (fl, VStruct fs)"
    and run: "Parse_struct ParseInt w (iface_ptr (Some schema)) (tl (os_Args w)) (fl, VStruct fs)
               = Inr r"
    by auto
  from ind have fl: "fl = ?fl" and schema: "schema = VStruct fs" by simp_all
  from assms(3) schema have i: "i < length fs" "fs ! i = (gsf, VStruct nested)"
    by (auto split: if_splits)
  from assms(5) schema i have j: "j < length nested" "nested ! j = (sf, x)"
    by (auto split: if_splits)
  from run show ?thesis
  proof (rule Parse_struct_field)
    fix h1 cfs' fs2
    assume cfs': "r_cfs r = Some cfs'"
      and rs: "r_schema r = pointee_update (iface_ptr (Some schema)) (VStruct fs2)"
      and len: "length fs2 = length fs"
      and group: "\<And>i sf x. i < length fs \<Longrightarrow> fs ! i = (sf, x) \<Longrightarrow>
          Kind_of x = reflect_Struct \<Longrightarrow>
          \<exists>x'. fs2 ! i = (sf, x') \<and>
            (if CanInterface (Field_flag fl sf)
             then \<exists>nested'. bind_list (Field_flag fl sf) (cfs', store (r_world r))
                               (struct_fields x) = Inr nested' \<and> x' = VStruct nested'
             else x' = x)"
    from cfs' assms(2) have same: "cfs' = cfs" by simp
    have ci: "CanInterface (Field_flag fl gsf)"
      using assms(4) by (simp add: fl CanInterface_def Field_flag_def)
    from group [OF i] ci same obtain nested' where
      g': "fs2 ! i = (gsf, VStruct nested')"
      and b: "bind_list (Field_flag fl gsf) (cfs, store (r_world r)) nested = Inr nested'"
      by auto
    have cs: "CanSet (Field_flag (Field_flag fl gsf) sf)"
      using assms(4,6) by (simp add: fl CanSet_def Field_flag_def)
    from bind_list_nth [OF b j] cs obtain x' where
      l: "length nested' = length nested" and x': "nested' ! j = (sf, x')"
      and v: "bind_value (store (r_world r)) sf (Visit cfs) x = Inr x'"
      by auto
    have m: "matching = filter (\<lambda>f. names_match sf f \<and>
        fits x (Get (store (r_world r)) (flag_Value f))) (Visit cfs)"
      unfolding assms(7) names_match_def ..
    from bind_value_last [OF v] assms(8)
    have "x' = of_any (Get (store (r_world r)) (flag_Value (last matching)))"
      unfolding m by (auto split: list.splits)
    with x' g' l j i len rs show ?thesis by simp
  qed
qed

text \<open>
  Two command groups with a field of the same name and the same type: the flag of the
  active command \<open>foo\<close> reaches the field of \<open>bar\<close> too.
\<close>

definition shared_Schema :: Value where
  "shared_Schema = VStruct
     [command_of ''Foo'' [field_of ''AAA'' ''a'' ''does A'' (VString '''')],
      command_of ''Bar'' [field_of ''AAA'' ''z'' ''does Z'' (VString '''')]]"

theorem command_pass_binds_by_name_witness:
  "\<exists>r schema'.
     Parse ParseInt_example (readme_world [''foo'', ''-aaa'', ''hello''])
       (iface_ptr (Some shared_Schema)) = Inr r \<and>
     map_option (\<lambda>cfs. map flag_Name (Visit cfs)) (r_cfs r) = Some [''aaa''] \<and>
     r_schema r = iface_ptr (Some schema') \<and>
     field_at (Nested 1 0) schema' =
       Some (fst (field_of ''AAA'' ''z'' ''does Z'' (VString '''')), VString ''hello'')"
proof -
  let ?s = "iface_ptr (Some shared_Schema)"
  let ?sf = "fst (field_of ''AAA'' ''z'' ''does Z'' (VString ''''))"
  let ?m = "\<lambda>r cfs. filter (\<lambda>f. (flag_Name f = ToLower (Name ?sf) \<or>
                          flag_Name f = Tag_Get (Tag ?sf) ''short'') \<and>
                        fits (VString '''') (Get (store (r_world r)) (flag_Value f))) (Visit cfs)"
  have "case Parse ParseInt_example (readme_world [''foo'', ''-aaa'', ''hello'']) ?s of
          Inl a \<Rightarrow> False
        | Inr r \<Rightarrow>
            (case r_cfs r of
               None \<Rightarrow> False
             | Some cfs \<Rightarrow>
                 map flag_Name (Visit cfs) = [''aaa''] \<and> ?m r cfs \<noteq> [] \<and>
                 of_any (Get (store (r_world r)) (flag_Value (last (?m r cfs))))
                   = VString ''hello'')"
    by code_simp
  then obtain r cfs where
    run: "Parse ParseInt_example (readme_world [''foo'', ''-aaa'', ''hello'']) ?s = Inr r"
    and cfs: "r_cfs r = Some cfs"
    and names: "map flag_Name (Visit cfs) = [''aaa'']"
    and ne: "?m r cfs \<noteq> []"
    and val: "of_any (Get (store (r_world r)) (flag_Value (last (?m r cfs)))) = VString ''hello''"
    by (cases "Parse ParseInt_example (readme_world [''foo'', ''-aaa'', ''hello'']) ?s")
       (simp_all split: option.splits)
  have g: "field_at (Top 1) shared_Schema =
      Some (fst (command_of ''Bar'' []), VStruct [field_of ''AAA'' ''z'' ''does Z'' (VString '''')])"
    and f: "field_at (Nested 1 0) shared_Schema = Some (?sf, VString '''')"
    by (simp_all add: shared_Schema_def field_of_def command_of_def)
  have e: "exported (fst (command_of ''Bar'' []))" "exported ?sf"
    by (simp_all add: field_of_def command_of_def)
  from command_pass_binds_by_name [OF run cfs g e(1) f e(2) refl ne] obtain schema' where
    s': "r_schema r = iface_ptr (Some schema')"
    and v: "field_at (Nested 1 0) schema' =
         Some (?sf, of_any (Get (store (r_world r)) (flag_Value (last (?m r cfs)))))"
    by blast
  from v have v': "field_at (Nested 1 0) schema' = Some (?sf, VString ''hello'')"
    unfolding val .
  from cfs names have n: "map_option (\<lambda>cfs. map flag_Name (Visit cfs)) (r_cfs r) = Some [''aaa'']"
    by simp
  show ?thesis
    by (rule exI [of _ r], rule exI [of _ schema']) (intro conjI run n s' v')
qed

text \<open>
  The claim as written has the value written into every field with a matching name.  Here
  the field \<open>AAA\<close> of \<open>bar\<close> is an int and the flag \<open>aaa\<close> of the active command \<open>foo\<close>
  is a string: the flag is set in the command scope, the names are equal, and the field of
  \<open>bar\<close> keeps its zero.
\<close>

definition mixed_Schema :: Value where
  "mixed_Schema = VStruct
     [command_of ''Foo'' [field_of ''AAA'' ''a'' ''does A'' (VString '''')],
      command_of ''Bar'' [field_of ''AAA'' ''z'' ''counts'' (VInt 0)]]"

theorem command_pass_type_counterexample:
  "(case Parse ParseInt_example (readme_world [''foo'', ''-aaa'', ''hello''])
           (iface_ptr (Some mixed_Schema)) of
      Inl a \<Rightarrow> None
    | Inr r \<Rightarrow>
        Some (r_err r, map_option (\<lambda>cfs. map flag_Name (Visit cfs)) (r_cfs r),
              map_option (\<lambda>schema'. (field_at (Nested 0 0) schema', field_at (Nested 1 0) schema'))
                (schema_of (r_schema r))))
   = Some (None, Some [''aaa''],
           Some (Some (field_of ''AAA'' ''a'' ''does A'' (VString ''hello'')),
                 Some (field_of ''AAA'' ''z'' ''counts'' (VInt 0))))
   \<and> ToLower (Name (fst (field_of ''AAA'' ''z'' ''counts'' (VInt 0)))) = ''aaa''"
  by code_simp



section \<open>The variables behind the flags\<close>

text \<open>
  The address that a flag value points to, and the content of the three memories at an
  address.  What \<open>Get\<close> returns depends on the content at the value's address only.
\<close>

fun addr_of :: "FlagValue \<Rightarrow> addr" where
  "addr_of (boolValue p) = p"
| "addr_of (intValue p) = p"
| "addr_of (stringValue p) = p"

definition cells :: "heap \<Rightarrow> addr \<Rightarrow> bool \<times> int \<times> string" where
  "cells h p = (bools h p, ints h p, strs h p)"

lemma Get_cells: "cells h (addr_of v) = cells h' (addr_of v) \<Longrightarrow> Get h v = Get h' v"
  by (cases v) (simp_all add: cells_def)

lemma addr_of_value_for [simp]: "addr_of (value_for k a) = a"
  by (cases k) simp_all

lemma Set_frame:
  "Set ParseInt h v str = (h', err) \<Longrightarrow>
     next_addr h' = next_addr h \<and> (\<forall>p. p \<noteq> addr_of v \<longrightarrow> cells h' p = cells h p)"
  by (cases v) (auto simp: cells_def)

text \<open>
  A flag set is well formed when every flag defined under a name bears that name, and every
  flag that has been set is the flag defined under its name.  Package flag keeps its flag
  sets so.
\<close>

definition wf_FlagSet :: "FlagSet \<Rightarrow> bool" where
  "wf_FlagSet f =
     ((\<forall>n g. map_of (formal f) n = Some g \<longrightarrow> flag_Name g = n) \<and>
      (\<forall>n g. (n, g) \<in> set (actual f) \<longrightarrow> map_of (formal f) n = Some g))"

lemma wf_NewFlagSet: "wf_FlagSet (NewFlagSet name handling)"
  by (simp add: wf_FlagSet_def NewFlagSet_def)

lemma Var_map_of:
  assumes "Var f val name usage = Inr f'"
  shows "map_of (formal f') =
           (map_of (formal f))(name \<mapsto> \<lparr>flag_Name = name, flag_Usage = usage, flag_Value = val\<rparr>)"
    and "map_of (formal f) name = None" and "actual f' = actual f"
  using Var_result [OF assms] by (simp_all add: update_conv')

lemma Var_wf:
  assumes "Var f val name usage = Inr f'" and "wf_FlagSet f"
  shows "wf_FlagSet f'"
proof -
  note v = Var_map_of [OF assms(1)]
  show ?thesis
    unfolding wf_FlagSet_def v(1) v(3)
  proof (intro conjI allI impI)
    fix n g
    assume "((map_of (formal f))(name \<mapsto> \<lparr>flag_Name = name, flag_Usage = usage,
                flag_Value = val\<rparr>)) n = Some g"
    with assms(2) show "flag_Name g = n"
      by (auto simp: wf_FlagSet_def split: if_splits)
  next
    fix n g
    assume "(n, g) \<in> set (actual f)"
    with assms(2) have "map_of (formal f) n = Some g" by (simp add: wf_FlagSet_def)
    with v(2) show "((map_of (formal f))(name \<mapsto> \<lparr>flag_Name = name, flag_Usage = usage,
                flag_Value = val\<rparr>)) n = Some g"
      by auto
  qed
qed

text \<open>What the registrar does for a field of a scalar kind, in full.\<close>

definition long_flag :: "StructField \<Rightarrow> Kind \<Rightarrow> addr \<Rightarrow> Flag" where
  "long_flag sf k a =
     \<lparr>flag_Name = ToLower (Name sf), flag_Usage = Tag_Get (Tag sf) ''usage'',
      flag_Value = value_for k a\<rparr>"

definition short_flag :: "StructField \<Rightarrow> Kind \<Rightarrow> addr \<Rightarrow> Flag" where
  "short_flag sf k a =
     \<lparr>flag_Name = Tag_Get (Tag sf) ''short'',
      flag_Usage = Tag_Get (Tag sf) ''usage'' @ '' (shorthand)'',
      flag_Value = value_for k a\<rparr>"

lemma registrar_scalar:
  assumes "registrar k sf (f, h) = Inr (f', h')" and "scalar k"
  shows "map_of (formal f') =
           (map_of (formal f))(ToLower (Name sf) \<mapsto> long_flag sf k (next_addr h),
                               Tag_Get (Tag sf) ''short'' \<mapsto> short_flag sf k (next_addr h))"
    and "map_of (formal f) (ToLower (Name sf)) = None"
    and "map_of (formal f) (Tag_Get (Tag sf) ''short'') = None"
    and "ToLower (Name sf) \<noteq> Tag_Get (Tag sf) ''short''"
    and "actual f' = actual f"
proof -
  from registrar_scalar_Var [OF assms(2), of sf "(f, h)"] assms(1) obtain f1 where
    v1: "Var f (value_for k (next_addr h)) (ToLower (Name sf))
       (Tag_Get (Tag sf) ''usage'') = Inr f1"
    and v2: "Var f1 (value_for k (next_addr h)) (Tag_Get (Tag sf) ''short'')
       (Tag_Get (Tag sf) ''usage'' @ '' (shorthand)'') = Inr f'"
    by (auto split: sum.splits)
  note a = Var_map_of [OF v1] and b = Var_map_of [OF v2]
  show "map_of (formal f') =
           (map_of (formal f))(ToLower (Name sf) \<mapsto> long_flag sf k (next_addr h),
                               Tag_Get (Tag sf) ''short'' \<mapsto> short_flag sf k (next_addr h))"
    unfolding b(1) a(1) long_flag_def short_flag_def ..
  show "map_of (formal f) (ToLower (Name sf)) = None" by (rule a(2))
  from b(2) show ne: "ToLower (Name sf) \<noteq> Tag_Get (Tag sf) ''short''"
    unfolding a(1) by (auto split: if_splits)
  from b(2) ne show "map_of (formal f) (Tag_Get (Tag sf) ''short'') = None"
    unfolding a(1) by (simp split: if_splits)
  show "actual f' = actual f" unfolding b(3) a(3) ..
qed

lemma registrar_heap:
  assumes "registrar k sf (f, h) = Inr (f', h')"
  shows "next_addr h' = (if scalar k then Suc (next_addr h) else next_addr h)"
    and "\<forall>p. p \<noteq> next_addr h \<longrightarrow> cells h' p = cells h p"
proof -
  have "next_addr h' = (if scalar k then Suc (next_addr h) else next_addr h) \<and>
        (\<forall>p. p \<noteq> next_addr h \<longrightarrow> cells h' p = cells h p)"
  proof (cases k)
    case reflect_Bool
    with assms show ?thesis
      by (auto simp: registrar_def new_var_def BoolVar_def Let_def scalar_def cells_def
            split: sum.splits)
  next
    case reflect_Int
    with assms show ?thesis
      by (auto simp: registrar_def new_var_def IntVar_def Let_def scalar_def cells_def
            split: sum.splits)
  next
    case reflect_String
    with assms show ?thesis
      by (auto simp: registrar_def new_var_def StringVar_def Let_def scalar_def cells_def
            split: sum.splits)
  next
    case reflect_Struct
    with assms show ?thesis by (simp add: registrar_def new_var_def scalar_def)
  next
    case reflect_Other
    with assms show ?thesis by (simp add: registrar_def new_var_def scalar_def)
  qed
  then show "next_addr h' = (if scalar k then Suc (next_addr h) else next_addr h)"
    and "\<forall>p. p \<noteq> next_addr h \<longrightarrow> cells h' p = cells h p"
    by simp_all
qed

lemma registrar_wf:
  assumes "registrar k sf (f, h) = Inr (f', h')" and "wf_FlagSet f"
  shows "wf_FlagSet f'"
proof (cases "scalar k")
  case False
  with assms show ?thesis by (simp add: registrar_other)
next
  case True
  from registrar_scalar_Var [OF True, of sf "(f, h)"] assms(1) obtain f1 where
    v1: "Var f (value_for k (next_addr h)) (ToLower (Name sf))
       (Tag_Get (Tag sf) ''usage'') = Inr f1"
    and v2: "Var f1 (value_for k (next_addr h)) (Tag_Get (Tag sf) ''short'')
       (Tag_Get (Tag sf) ''usage'' @ '' (shorthand)'') = Inr f'"
    by (auto split: sum.splits)
  from Var_wf [OF v2 Var_wf [OF v1 assms(2)]] show ?thesis .
qed

text \<open>
  The two flags of a field are in a flag set, both on the variable at \<open>a\<close>.  Once they are
  there, further registrations leave them there.
\<close>

definition has_flags :: "FlagSet \<Rightarrow> StructField \<Rightarrow> Kind \<Rightarrow> addr \<Rightarrow> bool" where
  "has_flags f sf k a =
     (map_of (formal f) (ToLower (Name sf)) = Some (long_flag sf k a) \<and>
      map_of (formal f) (Tag_Get (Tag sf) ''short'') = Some (short_flag sf k a))"

lemma registrar_has_flags:
  assumes "registrar k sf (f, h) = Inr (f', h')" and "scalar k"
  shows "has_flags f' sf k (next_addr h)"
  using registrar_scalar [OF assms] by (simp add: has_flags_def)

lemma registrar_keeps_flags:
  assumes "registrar k' sf' (f, h) = Inr (f', h')" and "has_flags f sf k a"
  shows "has_flags f' sf k a"
proof (cases "scalar k'")
  case False
  with assms show ?thesis by (simp add: registrar_other)
next
  case True
  note r = registrar_scalar [OF assms(1) True]
  from assms(2) r(2,3) show ?thesis
    unfolding has_flags_def r(1) by auto
qed

section \<open>What parsing does to a flag set and to the store\<close>

text \<open>
  The second half of \<open>parseOne\<close>, from the point where the flag has been looked up.
\<close>

definition set_flag ::
  "(string \<Rightarrow> int \<times> bool) \<Rightarrow> FlagSet \<Rightarrow> heap \<Rightarrow> string \<Rightarrow> Flag \<Rightarrow> bool \<Rightarrow> string
     \<Rightarrow> (bool \<times> error option) \<times> FlagSet \<times> heap" where
  "set_flag ParseInt f1 h name flag hasValue val =
     (if IsBoolFlag (flag_Value flag) then
        (let (h1, err) =
               Set ParseInt h (flag_Value flag)
                 (if hasValue then val else ''true'')
         in if err then ((False, Some (ErrInvalidBoolean val name)), f1, h1)
            else ((True, None),
                  f1\<lparr>actual := AList.update name flag (actual f1)\<rparr>, h1))
      else
        (let (hasValue, val, f2) =
               (if \<not> hasValue \<and> length (fs_args f1) > 0
                then (True, hd (fs_args f1),
                      f1\<lparr>fs_args := tl (fs_args f1)\<rparr>)
                else (hasValue, val, f1))
         in if \<not> hasValue then
              ((False, Some (ErrNeedsArgument name)), f2, h)
            else
              (let (h1, err) = Set ParseInt h (flag_Value flag) val
               in if err then
                    ((False, Some (ErrInvalidValue val name)), f2, h1)
                  else ((True, None),
                        f2\<lparr>actual := AList.update name flag (actual f2)\<rparr>,
                        h1))))"

lemma parseOne_set_flag:
  "parseOne ParseInt fh =
     (let f = fst fh; h = snd fh in
      case fs_args f of
        [] \<Rightarrow> ((False, None), f, h)
      | s # rest \<Rightarrow>
          if length s < 2 \<or> s ! 0 \<noteq> CHR ''-'' then ((False, None), f, h)
          else if s ! 1 = CHR ''-'' \<and> length s = 2 then
            ((False, None), f\<lparr>fs_args := rest\<rparr>, h)
          else
            (let numMinuses = (if s ! 1 = CHR ''-'' then 2 else 1 :: nat);
                 name = drop numMinuses s
             in if length name = 0 \<or> name ! 0 = CHR ''-'' \<or> name ! 0 = CHR ''='' then
                  ((False, Some (ErrBadFlagSyntax s)), f, h)
                else
                  (let f1 = f\<lparr>fs_args := rest\<rparr>;
                       (name, hasValue, val) = equals_loop name 1 (drop 1 name)
                   in case map_of (formal f1) name of
                        None \<Rightarrow>
                          if name = ''help'' \<or> name = ''h'' then ((False, Some ErrHelp), f1, h)
                          else ((False, Some (ErrNotDefined name)), f1, h)
                      | Some flag \<Rightarrow> set_flag ParseInt f1 h name flag hasValue val)))"
  unfolding parseOne_def set_flag_def ..

lemma Set_fst_frame:
  "next_addr (fst (Set ParseInt h v str)) = next_addr h"
  "p \<noteq> addr_of v \<Longrightarrow> cells (fst (Set ParseInt h v str)) p = cells h p"
  by (cases v; simp add: cells_def)+

lemma set_flag_shape:
  assumes "set_flag ParseInt f1 h name flag hasValue val = (res, f', h')"
  shows "formal f' = formal f1 \<and>
         (h' = h \<or> (\<exists>str. h' = fst (Set ParseInt h (flag_Value flag) str))) \<and>
         (actual f' = actual f1 \<or> actual f' = AList.update name flag (actual f1))"
proof -
  let ?A = "actual f' = actual f1 \<or> actual f' = AList.update name flag (actual f1)"
  have "\<exists>str h1 err. Set ParseInt h (flag_Value flag) str = (h1, err) \<and>
          formal f' = formal f1 \<and> (h' = h \<or> h' = h1) \<and> ?A"
  proof (cases "IsBoolFlag (flag_Value flag)")
    case True
    obtain h1 err where
      s: "Set ParseInt h (flag_Value flag) (if hasValue then val else ''true'') = (h1, err)"
      by (cases "Set ParseInt h (flag_Value flag) (if hasValue then val else ''true'')")
    from assms True s have "formal f' = formal f1 \<and> (h' = h \<or> h' = h1) \<and> ?A"
      unfolding set_flag_def by (cases err) auto
    with s show ?thesis by blast
  next
    case False
    show ?thesis
    proof (cases "\<not> hasValue \<and> length (fs_args f1) > 0")
      case next_arg: True
      obtain h1 err where s: "Set ParseInt h (flag_Value flag) (hd (fs_args f1)) = (h1, err)"
        by (cases "Set ParseInt h (flag_Value flag) (hd (fs_args f1))")
      from assms False next_arg s have "formal f' = formal f1 \<and> (h' = h \<or> h' = h1) \<and> ?A"
        unfolding set_flag_def by (cases err) auto
      with s show ?thesis by blast
    next
      case no_next: False
      obtain h1 err where s: "Set ParseInt h (flag_Value flag) val = (h1, err)"
        by (cases "Set ParseInt h (flag_Value flag) val")
      from assms False no_next s have "formal f' = formal f1 \<and> (h' = h \<or> h' = h1) \<and> ?A"
        unfolding set_flag_def by (cases err; cases hasValue) auto
      with s show ?thesis by blast
    qed
  qed
  then obtain str h1 err where "Set ParseInt h (flag_Value flag) str = (h1, err)"
    and r: "formal f' = formal f1" "h' = h \<or> h' = h1" ?A
    by blast
  then have "h1 = fst (Set ParseInt h (flag_Value flag) str)" by simp
  with r show ?thesis by blast
qed

lemma parseOne_shape:
  assumes "parseOne ParseInt (f, h) = (res, f', h')"
  shows "formal f' = formal f \<and>
         ((h' = h \<and> actual f' = actual f) \<or>
          (\<exists>name flag. map_of (formal f) name = Some flag \<and>
             (h' = h \<or> (\<exists>str. h' = fst (Set ParseInt h (flag_Value flag) str))) \<and>
             (actual f' = actual f \<or> actual f' = AList.update name flag (actual f))))"
proof -
  from assms consider
      (plain) "formal f' = formal f" "h' = h" "actual f' = actual f"
    | (flag) rest name flag hasValue val where
        "map_of (formal f) name = Some flag"
        "set_flag ParseInt (f\<lparr>fs_args := rest\<rparr>) h name flag hasValue val = (res, f', h')"
    unfolding parseOne_set_flag Let_def
    by (auto split: list.splits if_splits option.splits prod.splits)
  then show ?thesis
  proof cases
    case plain
    then show ?thesis by simp
  next
    case flag
    from set_flag_shape [OF flag(2)] flag(1) show ?thesis by auto
  qed
qed

lemma set_update_cases:
  "(n, g) \<in> set (AList.update k v al) \<Longrightarrow> (n, g) = (k, v) \<or> (n, g) \<in> set al"
  by (induction al) (auto split: if_splits)

lemma parseOne_effect:
  assumes "parseOne ParseInt (f, h) = (res, f', h')"
  shows "formal f' = formal f" and "next_addr h' = next_addr h"
    and "wf_FlagSet f \<Longrightarrow> wf_FlagSet f'"
    and "\<forall>p. (\<forall>n g. map_of (formal f) n = Some g \<longrightarrow> addr_of (flag_Value g) \<noteq> p) \<longrightarrow>
           cells h' p = cells h p"
proof -
  note s = parseOne_shape [OF assms]
  from s show fm: "formal f' = formal f" by simp
  from s show "next_addr h' = next_addr h"
    by (auto simp: Set_fst_frame)
  show "\<forall>p. (\<forall>n g. map_of (formal f) n = Some g \<longrightarrow> addr_of (flag_Value g) \<noteq> p) \<longrightarrow>
           cells h' p = cells h p"
  proof (intro allI impI)
    fix p
    assume other: "\<forall>n g. map_of (formal f) n = Some g \<longrightarrow> addr_of (flag_Value g) \<noteq> p"
    from s consider "h' = h"
      | name flag str where "map_of (formal f) name = Some flag"
          "h' = fst (Set ParseInt h (flag_Value flag) str)"
      by auto
    then show "cells h' p = cells h p"
    proof cases
      case 1
      then show ?thesis by simp
    next
      case 2
      from other 2(1) have "p \<noteq> addr_of (flag_Value flag)" by auto
      with 2(2) show ?thesis by (simp add: Set_fst_frame)
    qed
  qed
  assume wf: "wf_FlagSet f"
  from s consider "actual f' = actual f"
    | name flag where "map_of (formal f) name = Some flag"
        "actual f' = AList.update name flag (actual f)"
    by auto
  then show "wf_FlagSet f'"
  proof cases
    case 1
    with wf fm show ?thesis by (simp add: wf_FlagSet_def)
  next
    case 2
    show ?thesis
      unfolding wf_FlagSet_def fm 2(2)
    proof (intro conjI allI impI)
      fix n g
      assume "map_of (formal f) n = Some g"
      with wf show "flag_Name g = n" by (simp add: wf_FlagSet_def)
    next
      fix n g
      assume "(n, g) \<in> set (AList.update name flag (actual f))"
      from set_update_cases [OF this] 2(1) wf show "map_of (formal f) n = Some g"
        by (auto simp: wf_FlagSet_def)
    qed
  qed
qed

lemma Parse_loop_effect:
  assumes "Parse_loop ParseInt (f, h) = Inr (err, f', h')"
  shows "formal f' = formal f \<and> next_addr h' = next_addr h \<and>
         (wf_FlagSet f \<longrightarrow> wf_FlagSet f') \<and>
         (\<forall>p. (\<forall>n g. map_of (formal f) n = Some g \<longrightarrow> addr_of (flag_Value g) \<noteq> p) \<longrightarrow>
           cells h' p = cells h p)"
  using assms
proof (induction ParseInt "(f, h)" arbitrary: f h rule: Parse_loop.induct)
  case (1 ParseInt)
  obtain seen e f1 h1 where p: "parseOne ParseInt (f, h) = ((seen, e), f1, h1)"
    by (metis prod.exhaust)
  note eff = parseOne_effect [OF p]
  show ?case
  proof (cases seen)
    case False
    with "1.prems" p have "f' = f1" "h' = h1"
      by (auto simp: Parse_loop.simps [of ParseInt "(f, h)"]
            split: option.splits ErrorHandling.splits)
    with eff show ?thesis by simp
  next
    case True
    with "1.prems" p have "Parse_loop ParseInt (f1, h1) = Inr (err, f', h')"
      by (simp add: Parse_loop.simps [of ParseInt "(f, h)"])
    from "1.hyps" [OF p [symmetric] refl True this] eff show ?thesis
      by simp
  qed
qed

lemma FlagSet_Parse_effect:
  assumes "FlagSet_Parse ParseInt (f, h) arguments = Inr (err, f', h')"
  shows "formal f' = formal f" and "next_addr h' = next_addr h"
    and "wf_FlagSet f \<Longrightarrow> wf_FlagSet f'"
    and "\<forall>p. (\<forall>n g. map_of (formal f) n = Some g \<longrightarrow> addr_of (flag_Value g) \<noteq> p) \<longrightarrow>
           cells h' p = cells h p"
proof -
  from assms have "Parse_loop ParseInt (f\<lparr>parsed := True, fs_args := arguments\<rparr>, h)
      = Inr (err, f', h')"
    by (simp add: FlagSet_Parse_def)
  note e = Parse_loop_effect [OF this]
  from e show "formal f' = formal f" and "next_addr h' = next_addr h"
    and "\<forall>p. (\<forall>n g. map_of (formal f) n = Some g \<longrightarrow> addr_of (flag_Value g) \<noteq> p) \<longrightarrow>
           cells h' p = cells h p"
    by simp_all
  assume "wf_FlagSet f"
  then have "wf_FlagSet (f\<lparr>parsed := True, fs_args := arguments\<rparr>)"
    by (simp add: wf_FlagSet_def)
  with e show "wf_FlagSet f'" by simp
qed

section \<open>Every settable field is visited\<close>

lemma nested_visits_intro:
  "n < length fs \<Longrightarrow> fs ! n = (st, x) \<Longrightarrow> CanSet (Field_flag fl st) \<Longrightarrow>
     (Nested i (j + n), Kind_of x, st, [cmd]) \<in> set (nested_visits fl cmd i j fs)"
proof (induction fs arbitrary: j n)
  case Nil
  then show ?case by simp
next
  case (Cons p fs)
  obtain st' x' where p: "p = (st', x')" by (cases p)
  show ?case
  proof (cases n)
    case 0
    with Cons.prems p show ?thesis by simp
  next
    case (Suc m)
    with Cons.prems have "m < length fs" "fs ! m = (st, x)" by simp_all
    from Cons.IH [OF this Cons.prems(3), of "Suc j"] Suc show ?thesis
      unfolding p by simp
  qed
qed

lemma deep_visits_intro:
  "m < length fs \<Longrightarrow> fs ! m = (sf, VStruct nested) \<Longrightarrow> CanInterface (Field_flag fl sf) \<Longrightarrow>
   n < length nested \<Longrightarrow> nested ! n = (st, x) \<Longrightarrow> CanSet (Field_flag (Field_flag fl sf) st) \<Longrightarrow>
     (Nested (i + m) n, Kind_of x, st, [ToLower (Name sf)]) \<in> set (visits True fl i fs)"
proof (induction fs arbitrary: i m)
  case Nil
  then show ?case by simp
next
  case (Cons p fs)
  obtain sf' x' where p: "p = (sf', x')" by (cases p)
  show ?case
  proof (cases m)
    case 0
    with Cons.prems p have "sf' = sf" "x' = VStruct nested" by simp_all
    with nested_visits_intro [OF Cons.prems(4,5,6), where cmd = "ToLower (Name sf)"
        and i = i and j = 0] Cons.prems(3) 0
    show ?thesis unfolding p by simp
  next
    case (Suc k)
    with Cons.prems have "k < length fs" "fs ! k = (sf, VStruct nested)" by simp_all
    from Cons.IH [OF this Cons.prems(3,4,5,6), of "Suc i"] Suc show ?thesis
      unfolding p by simp
  qed
qed

lemma shallow_visits_intro:
  "m < length fs \<Longrightarrow> fs ! m = (sf, x) \<Longrightarrow> Kind_of x \<noteq> reflect_Struct \<Longrightarrow>
   CanSet (Field_flag fl sf) \<Longrightarrow>
     (Top (i + m), Kind_of x, sf, []) \<in> set (visits False fl i fs)"
proof (induction fs arbitrary: i m)
  case Nil
  then show ?case by simp
next
  case (Cons p fs)
  obtain sf' x' where p: "p = (sf', x')" by (cases p)
  show ?case
  proof (cases m)
    case 0
    with Cons.prems p show ?thesis by simp
  next
    case (Suc k)
    with Cons.prems have "k < length fs" "fs ! k = (sf, x)" by simp_all
    from Cons.IH [OF this Cons.prems(3,4), of "Suc i"] Suc show ?thesis
      unfolding p by simp
  qed
qed

text \<open>
  A property that one visit establishes and every visit keeps holds at the end of the run.
\<close>

lemma run_visits_establish:
  assumes "run_visits callback vs s = Inr s'" and "(field, k, sf, cmd) \<in> set vs" and "I s"
    and keep_I: "\<And>field' k' sf' cmd' s1 s2. (field', k', sf', cmd') \<in> set vs \<Longrightarrow> I s1 \<Longrightarrow>
           callback field' k' sf' cmd' s1 = Inr s2 \<Longrightarrow> I s2"
    and est: "\<And>s1 s2. I s1 \<Longrightarrow> callback field k sf cmd s1 = Inr s2 \<Longrightarrow> Q s2"
    and keep_Q: "\<And>field' k' sf' cmd' s1 s2. (field', k', sf', cmd') \<in> set vs \<Longrightarrow> I s1 \<Longrightarrow>
           Q s1 \<Longrightarrow> callback field' k' sf' cmd' s1 = Inr s2 \<Longrightarrow> Q s2"
  shows "Q s'"
proof -
  from assms(2) obtain pre post where vs: "vs = pre @ (field, k, sf, cmd) # post"
    by (meson split_list)
  from assms(1) obtain s1 s2 where
    r1: "run_visits callback pre s = Inr s1"
    and c: "callback field k sf cmd s1 = Inr s2"
    and r2: "run_visits callback post s2 = Inr s'"
    unfolding vs run_visits_append by (auto split: sum.splits)
  have "I s1"
  proof (rule run_visits_invariant [OF r1, where P = I])
    show "I s" by (rule assms(3))
  next
    fix field' k' sf' cmd' t1 t2
    assume "(field', k', sf', cmd') \<in> set pre" "I t1"
      "callback field' k' sf' cmd' t1 = Inr t2"
    then show "I t2"
      using keep_I [of field' k' sf' cmd' t1 t2] by (simp add: vs)
  qed
  with c have "I s2" "Q s2"
    using keep_I [of field k sf cmd s1 s2] est [of s1 s2] by (simp_all add: vs)
  have "I s' \<and> Q s'"
  proof (rule run_visits_invariant [OF r2, where P = "\<lambda>s. I s \<and> Q s"])
    show "I s2 \<and> Q s2" using \<open>I s2\<close> \<open>Q s2\<close> by simp
  next
    fix field' k' sf' cmd' t1 t2
    assume "(field', k', sf', cmd') \<in> set post" "I t1 \<and> Q t1"
      "callback field' k' sf' cmd' t1 = Inr t2"
    then show "I t2 \<and> Q t2"
      using keep_I [of field' k' sf' cmd' t1 t2] keep_Q [of field' k' sf' cmd' t1 t2]
      by (simp add: vs)
  qed
  then show ?thesis by simp
qed

section \<open>What a registration pass keeps\<close>

text \<open>
  Relative to the flag set and the store at the start of a pass: the store has grown, what
  was below its old end is untouched, the flags set are the same, and every flag defined
  was defined before or points into the new part of the store.
\<close>

definition reg_inv :: "FlagSet \<Rightarrow> heap \<Rightarrow> FlagSet \<times> heap \<Rightarrow> bool" where
  "reg_inv f0 h0 s =
     (next_addr h0 \<le> next_addr (snd s) \<and>
      (wf_FlagSet f0 \<longrightarrow> wf_FlagSet (fst s)) \<and>
      actual (fst s) = actual f0 \<and> fs_name (fst s) = fs_name f0 \<and>
      (\<forall>p < next_addr h0. cells (snd s) p = cells h0 p) \<and>
      (\<forall>n g. map_of (formal (fst s)) n = Some g \<longrightarrow>
         map_of (formal f0) n = Some g \<or>
         (next_addr h0 \<le> addr_of (flag_Value g) \<and> addr_of (flag_Value g) < next_addr (snd s))))"

lemma reg_inv_refl: "reg_inv f0 h0 (f0, h0)"
  by (simp add: reg_inv_def)

lemma registrar_fs_name:
  assumes "registrar k sf (f, h) = Inr (f', h')"
  shows "fs_name f' = fs_name f"
proof (cases "scalar k")
  case False
  with assms show ?thesis by (simp add: registrar_other)
next
  case True
  from registrar_scalar_Var [OF True, of sf "(f, h)"] assms(1) obtain f1 where
    v1: "Var f (value_for k (next_addr h)) (ToLower (Name sf))
       (Tag_Get (Tag sf) ''usage'') = Inr f1"
    and v2: "Var f1 (value_for k (next_addr h)) (Tag_Get (Tag sf) ''short'')
       (Tag_Get (Tag sf) ''usage'' @ '' (shorthand)'') = Inr f'"
    by (auto split: sum.splits)
  from Var_result [OF v1] Var_result [OF v2] show ?thesis by simp
qed

lemma registrar_reg_inv:
  assumes "registrar k sf s = Inr s'" and "reg_inv f0 h0 s"
  shows "reg_inv f0 h0 s'"
proof -
  obtain f h where s: "s = (f, h)" by (cases s)
  obtain f' h' where s': "s' = (f', h')" by (cases s')
  note r = assms(1) [unfolded s s']
  note hp = registrar_heap [OF r]
  from assms(2) have i1: "next_addr h0 \<le> next_addr h"
    and i2: "wf_FlagSet f0 \<Longrightarrow> wf_FlagSet f"
    and i3: "actual f = actual f0" and i4: "fs_name f = fs_name f0"
    and i5: "\<And>p. p < next_addr h0 \<Longrightarrow> cells h p = cells h0 p"
    and i6: "\<And>n g. map_of (formal f) n = Some g \<Longrightarrow>
         map_of (formal f0) n = Some g \<or>
         (next_addr h0 \<le> addr_of (flag_Value g) \<and> addr_of (flag_Value g) < next_addr h)"
    unfolding s reg_inv_def by simp_all
  show ?thesis
  proof (cases "scalar k")
    case False
    with r assms(2) show ?thesis by (simp add: registrar_other s s')
  next
    case True
    note sc = registrar_scalar [OF r True]
    from hp(1) True have nx: "next_addr h' = Suc (next_addr h)" by simp
    show ?thesis
      unfolding reg_inv_def s' fst_conv snd_conv
    proof (intro conjI allI impI)
      from nx i1 show "next_addr h0 \<le> next_addr h'" by simp
    next
      assume "wf_FlagSet f0"
      from registrar_wf [OF r i2 [OF this]] show "wf_FlagSet f'" .
    next
      from sc(5) i3 show "actual f' = actual f0" by simp
    next
      from registrar_fs_name [OF r] i4 show "fs_name f' = fs_name f0" by simp
    next
      fix p assume p: "p < next_addr h0"
      with i1 have "p \<noteq> next_addr h" by simp
      with hp(2) i5 [OF p] show "cells h' p = cells h0 p" by simp
    next
      fix n g
      assume m: "map_of (formal f') n = Some g"
      show "map_of (formal f0) n = Some g \<or>
         (next_addr h0 \<le> addr_of (flag_Value g) \<and> addr_of (flag_Value g) < next_addr h')"
      proof (cases "n = Tag_Get (Tag sf) ''short''")
        case True
        with m have "g = short_flag sf k (next_addr h)" unfolding sc(1) by simp
        with i1 nx show ?thesis by (simp add: short_flag_def)
      next
        case ns: False
        show ?thesis
        proof (cases "n = ToLower (Name sf)")
          case True
          with m ns have "g = long_flag sf k (next_addr h)" unfolding sc(1) by simp
          with i1 nx show ?thesis by (simp add: long_flag_def)
        next
          case False
          with m ns have "map_of (formal f) n = Some g" unfolding sc(1) by simp
          from i6 [OF this] nx show ?thesis by auto
        qed
      qed
    qed
  qed
qed

lemma register_pass_inv:
  assumes "run_visits callback vs (f0, h0) = Inr s'"
    and step: "\<And>field k sf c s s1. callback field k sf c s = Inr s1 \<Longrightarrow>
                 s1 = s \<or> registrar k sf s = Inr s1"
  shows "reg_inv f0 h0 s'"
proof (rule run_visits_invariant [OF assms(1), where P = "reg_inv f0 h0"])
  show "reg_inv f0 h0 (f0, h0)" by (rule reg_inv_refl)
next
  fix field k sf cmd s1 s2
  assume "reg_inv f0 h0 s1" "callback field k sf cmd s1 = Inr s2"
  with step [of field k sf cmd s1 s2] registrar_reg_inv [of k sf s1 s2 f0 h0]
  show "reg_inv f0 h0 s2" by auto
qed

lemma register_pass_flags:
  assumes "run_visits callback vs (f0, h0) = Inr s'"
    and step: "\<And>field k sf c s s1. callback field k sf c s = Inr s1 \<Longrightarrow>
                 s1 = s \<or> registrar k sf s = Inr s1"
    and "(field, k, sf, c) \<in> set vs" and "scalar k"
    and here: "\<And>s s1. callback field k sf c s = Inr s1 \<Longrightarrow> registrar k sf s = Inr s1"
  shows "\<exists>a. next_addr h0 \<le> a \<and> a < next_addr (snd s') \<and> has_flags (fst s') sf k a"
proof (rule run_visits_establish [OF assms(1,3), where I = "reg_inv f0 h0"
      and Q = "\<lambda>s. \<exists>a. next_addr h0 \<le> a \<and> a < next_addr (snd s) \<and> has_flags (fst s) sf k a"])
  show "reg_inv f0 h0 (f0, h0)" by (rule reg_inv_refl)
next
  fix field' k' sf' cmd' s1 s2
  assume "reg_inv f0 h0 s1" "callback field' k' sf' cmd' s1 = Inr s2"
  with step [of field' k' sf' cmd' s1 s2] registrar_reg_inv [of k' sf' s1 s2 f0 h0]
  show "reg_inv f0 h0 s2" by auto
next
  fix s1 s2
  assume inv: "reg_inv f0 h0 s1" and c: "callback field k sf c s1 = Inr s2"
  obtain f h where s1: "s1 = (f, h)" by (cases s1)
  obtain f' h' where s2: "s2 = (f', h')" by (cases s2)
  from here [OF c] have r: "registrar k sf (f, h) = Inr (f', h')" by (simp add: s1 s2)
  from registrar_heap(1) [OF r] assms(4) have "next_addr h' = Suc (next_addr h)" by simp
  moreover from inv have "next_addr h0 \<le> next_addr h" by (simp add: reg_inv_def s1)
  moreover note registrar_has_flags [OF r assms(4)]
  ultimately show "\<exists>a. next_addr h0 \<le> a \<and> a < next_addr (snd s2) \<and> has_flags (fst s2) sf k a"
    unfolding s2 by (intro exI [of _ "next_addr h"]) simp
next
  fix field' k' sf' cmd' s1 s2
  assume q: "\<exists>a. next_addr h0 \<le> a \<and> a < next_addr (snd s1) \<and> has_flags (fst s1) sf k a"
    and c: "callback field' k' sf' cmd' s1 = Inr s2"
  from q obtain a where a: "next_addr h0 \<le> a" "a < next_addr (snd s1)"
    "has_flags (fst s1) sf k a"
    by blast
  from step [OF c] show "\<exists>a. next_addr h0 \<le> a \<and> a < next_addr (snd s2) \<and>
      has_flags (fst s2) sf k a"
  proof
    assume "s2 = s1"
    with q show ?thesis by simp
  next
    assume "registrar k' sf' s1 = Inr s2"
    then have r: "registrar k' sf' (fst s1, snd s1) = Inr (fst s2, snd s2)" by simp
    from registrar_heap(1) [OF r] a(2) have "a < next_addr (snd s2)"
      by (simp split: if_splits)
    with a(1) registrar_keeps_flags [OF r a(3)] show ?thesis by blast
  qed
qed

text \<open>The two registration passes of \<open>Parse\<close>.\<close>

lemma register_global_step:
  "register_global field k sf c s = Inr s1 \<Longrightarrow> s1 = s \<or> registrar k sf s = Inr s1"
  by (simp add: register_global_def)

lemma register_command_step:
  "register_command cmd field k sf c s = Inr s1 \<Longrightarrow> s1 = s \<or> registrar k sf s = Inr s1"
  by (auto simp: register_command_def split: list.splits if_splits)

lemma register_global_here:
  "register_global field k sf c s = Inr s1 \<Longrightarrow> registrar k sf s = Inr s1"
  by (simp add: register_global_def)

lemma register_command_here:
  "register_command cmd field k sf [cmd] s = Inr s1 \<Longrightarrow> registrar k sf s = Inr s1"
  by (simp add: register_command_def)

lemma global_registration:
  assumes "IterFields False (fl, VStruct fs) register_global (cmds, (f0, h0)) = Inr (cmds1, s1)"
  shows "reg_inv f0 h0 s1"
    and "i < length fs \<Longrightarrow> fs ! i = (sf, x) \<Longrightarrow> scalar (Kind_of x) \<Longrightarrow>
         CanSet (Field_flag fl sf) \<Longrightarrow>
         \<exists>a. next_addr h0 \<le> a \<and> a < next_addr (snd s1) \<and> has_flags (fst s1) sf (Kind_of x) a"
proof -
  from assms have rv: "run_visits register_global (visits False fl 0 fs) (f0, h0) = Inr s1"
    unfolding IterFields_visits by (auto split: sum.splits)
  from register_pass_inv [OF rv register_global_step] show "reg_inv f0 h0 s1" .
  assume i: "i < length fs" "fs ! i = (sf, x)" and k: "scalar (Kind_of x)"
    and cs: "CanSet (Field_flag fl sf)"
  from k have "Kind_of x \<noteq> reflect_Struct" by (auto simp: scalar_def)
  from shallow_visits_intro [OF i this cs, of 0]
  have mem: "(Top i, Kind_of x, sf, []) \<in> set (visits False fl 0 fs)" by simp
  show "\<exists>a. next_addr h0 \<le> a \<and> a < next_addr (snd s1) \<and> has_flags (fst s1) sf (Kind_of x) a"
    by (rule register_pass_flags [OF rv register_global_step mem k register_global_here])
qed

lemma command_registration:
  assumes "CommandFlagSet cmd cmdFlags (fl, VStruct fs) (cmds, h0) = Inr (cmds1, s1)"
  shows "reg_inv (NewFlagSet cmd ExitOnError) h0 s1"
    and "i < length fs \<Longrightarrow> fs ! i = (gsf, VStruct nested) \<Longrightarrow>
         CanInterface (Field_flag fl gsf) \<Longrightarrow> ToLower (Name gsf) = cmd \<Longrightarrow>
         j < length nested \<Longrightarrow> nested ! j = (sf, x) \<Longrightarrow> scalar (Kind_of x) \<Longrightarrow>
         CanSet (Field_flag (Field_flag fl gsf) sf) \<Longrightarrow>
         \<exists>a. next_addr h0 \<le> a \<and> a < next_addr (snd s1) \<and> has_flags (fst s1) sf (Kind_of x) a"
proof -
  from assms have rv: "run_visits (register_command cmd) (visits True fl 0 fs)
      (NewFlagSet cmd ExitOnError, h0) = Inr s1"
    unfolding CommandFlagSet_def IterFields_visits by (auto split: sum.splits)
  from register_pass_inv [OF rv register_command_step]
  show "reg_inv (NewFlagSet cmd ExitOnError) h0 s1" .
  assume i: "i < length fs" "fs ! i = (gsf, VStruct nested)"
    and ci: "CanInterface (Field_flag fl gsf)" and cmd: "ToLower (Name gsf) = cmd"
    and j: "j < length nested" "nested ! j = (sf, x)" and k: "scalar (Kind_of x)"
    and cs: "CanSet (Field_flag (Field_flag fl gsf) sf)"
  from deep_visits_intro [OF i ci j cs, of 0]
  have mem: "(Nested i j, Kind_of x, sf, [cmd]) \<in> set (visits True fl 0 fs)"
    by (simp add: cmd)
  show "\<exists>a. next_addr h0 \<le> a \<and> a < next_addr (snd s1) \<and> has_flags (fst s1) sf (Kind_of x) a"
    by (rule register_pass_flags [OF rv register_command_step mem k register_command_here])
qed

section \<open>Binding from two flags on one variable\<close>

lemma set_Visit: "set (Visit f) = snd ` set (actual f)"
  by (simp add: Visit_def)

lemma fits_value_for: "scalar (Kind_of x) \<Longrightarrow> fits x (Get h (value_for (Kind_of x) a))"
  by (cases x) (simp_all add: scalar_def)

text \<open>
  In a well-formed flag set that holds the two flags of a field, every flag that has been
  set and bears one of the two names points to the field's variable; so the binding pass
  leaves in the field the content of that variable, whichever of the two names has been
  set, and leaves the field alone when neither has.
\<close>

lemma matching_flag_value:
  assumes "wf_FlagSet f" and "has_flags f sf k a" and "g \<in> set (Visit f)"
    and "names_match sf g"
  shows "flag_Value g = value_for k a"
proof -
  from assms(3) obtain n where n: "(n, g) \<in> set (actual f)"
    by (auto simp: set_Visit)
  with assms(1) have m: "map_of (formal f) n = Some g" and "flag_Name g = n"
    by (auto simp: wf_FlagSet_def)
  with assms(4) have "n = ToLower (Name sf) \<or> n = Tag_Get (Tag sf) ''short''"
    by (simp add: names_match_def)
  with m assms(2) show ?thesis
    by (auto simp: has_flags_def long_flag_def short_flag_def)
qed

lemma bind_value_shared:
  assumes "wf_FlagSet f" and "has_flags f sf (Kind_of x) a" and "scalar (Kind_of x)"
    and "bind_value h sf (Visit f) x = Inr x'"
  shows "x' = (if \<exists>g \<in> set (Visit f). names_match sf g
               then of_any (Get h (value_for (Kind_of x) a)) else x)"
proof -
  let ?P = "\<lambda>g. names_match sf g \<and> fits x (Get h (flag_Value g))"
  have P: "?P g \<longleftrightarrow> names_match sf g" if "g \<in> set (Visit f)" for g
    using matching_flag_value [OF assms(1,2) that] fits_value_for [OF assms(3), of h a]
    by auto
  show ?thesis
  proof (cases "filter ?P (Visit f)")
    case Nil
    then have "\<forall>g \<in> set (Visit f). \<not> ?P g" by (simp add: filter_empty_conv)
    with P have "\<not> (\<exists>g \<in> set (Visit f). names_match sf g)" by blast
    with bind_value_last [OF assms(4)] Nil show ?thesis by simp
  next
    case (Cons m ms)
    then have "last (m # ms) \<in> set (filter ?P (Visit f))" by (metis last_in_set list.discI)
    then have l: "last (m # ms) \<in> set (Visit f)" "names_match sf (last (m # ms))" by simp_all
    from matching_flag_value [OF assms(1,2) l]
    have "flag_Value (last (m # ms)) = value_for (Kind_of x) a" .
    with bind_value_last [OF assms(4)] Cons l show ?thesis by auto
  qed
qed

lemma parseOne_fs_name:
  "fs_name (fst (snd (parseOne ParseInt fh))) = fs_name (fst fh)"
  by (simp add: parseOne_def Let_def split: list.splits option.splits prod.splits)

lemma Parse_loop_fs_name:
  "Parse_loop ParseInt fh = Inr (err, fh') \<Longrightarrow> fs_name (fst fh') = fs_name (fst fh)"
proof (induction ParseInt fh rule: Parse_loop.induct)
  case (1 ParseInt fh)
  obtain seen e fh1 where p: "parseOne ParseInt fh = ((seen, e), fh1)"
    by (metis prod.exhaust)
  from parseOne_fs_name [of ParseInt fh] p
  have eh: "fs_name (fst fh1) = fs_name (fst fh)" by simp
  show ?case
  proof (cases seen)
    case True
    with "1.prems" p have "Parse_loop ParseInt fh1 = Inr (err, fh')"
      by (simp add: Parse_loop.simps [of ParseInt fh])
    from "1.IH" [OF p [symmetric] refl True this] eh show ?thesis by simp
  next
    case False
    with "1.prems" p eh show ?thesis
      by (auto simp: Parse_loop.simps [of ParseInt fh]
            split: option.splits ErrorHandling.splits)
  qed
qed

lemma FlagSet_Parse_fs_name:
  assumes "FlagSet_Parse ParseInt (f, h) arguments = Inr (err, f', h')"
  shows "fs_name f' = fs_name f"
proof -
  from assms have "Parse_loop ParseInt (f\<lparr>parsed := True, fs_args := arguments\<rparr>, h)
      = Inr (err, f', h')"
    by (simp add: FlagSet_Parse_def)
  from Parse_loop_fs_name [OF this] show ?thesis by simp
qed

text \<open>
  The stages of a call of \<open>Parse\<close> on a struct that returns, with the flag sets and the
  stores between them.
\<close>

lemma Parse_struct_stages:
  assumes "Parse_struct ParseInt w s args (fl, VStruct fs) = Inr r"
  obtains cmds1 f1 h1 ignored f2 h2 cmds2 cmd cmds3 c0 hc0 cfs hc fs1 fs2 where
    "IterFields False (fl, VStruct fs) register_global (pkg_cmds w, (CommandLine w, store w))
       = Inr (cmds1, (f1, h1))"
    "FlagSet_Parse ParseInt (f1, h1) args = Inr (ignored, (f2, h2))"
    "bind_list fl (f2, h2) fs = Inr fs1"
    "CommandFlagSet cmd (CommandFlags cmd (fs_args f2)) (fl, VStruct fs) (cmds2, h2)
       = Inr (cmds3, (c0, hc0))"
    "FlagSet_Parse ParseInt (c0, hc0) (CommandFlags cmd (fs_args f2)) = Inr (None, (cfs, hc))"
    "bind_groups fl (cfs, hc) fs1 = Inr fs2"
    "CommandLine (r_world r) = f2" "store (r_world r) = hc" "r_cfs r = Some cfs"
    "r_schema r = pointee_update s (VStruct fs2)"
  using assms
proof (rule Parse_struct_returns)
  fix cmds1 fh1 ignored fh2 cmds2 schema1 cmd cmds3 cfs0 err cfs
  assume g: "IterFields False (fl, VStruct fs) register_global
                (pkg_cmds w, (CommandLine w, store w)) = Inr (cmds1, fh1)"
    and q: "FlagSet_Parse ParseInt fh1 args = Inr (ignored, fh2)"
    and p1: "IterFields False (fl, VStruct fs) (bind_field fh2) (cmds1, snd (fl, VStruct fs))
                = Inr (cmds2, schema1)"
    and c: "CommandFlagSet cmd (CommandFlags cmd (fs_args (fst fh2))) (fl, VStruct fs)
                   (cmds2, snd fh2) = Inr (cmds3, cfs0)"
    and p: "FlagSet_Parse ParseInt cfs0 (CommandFlags cmd (fs_args (fst fh2)))
                   = Inr (err, cfs)"
    and r: "(\<exists>e. err = Some e \<and>
            r = \<lparr>r_err = Some e,
               r_world = w\<lparr>pkg_cmds := cmds3, CommandLine := fst fh2, store := snd cfs\<rparr>,
               r_schema = pointee_update s schema1, r_cfs = Some (fst cfs)\<rparr>) \<or>
          (err = None \<and>
            (\<exists>cmds4 schema2.
              IterFields True (fl, VStruct fs) (bind_field cfs) (cmds3, schema1)
                = Inr (cmds4, schema2) \<and>
              r = \<lparr>r_err = None,
               r_world = w\<lparr>pkg_cmds := cmds4, CommandLine := fst fh2, store := snd cfs\<rparr>,
               r_schema = pointee_update s schema2, r_cfs = Some (fst cfs)\<rparr>))"
  from CommandFlagSet_errorHandling [OF c]
  have "errorHandling (fst (fst cfs0\<lparr>parsed := True,
          fs_args := CommandFlags cmd (fs_args (fst fh2))\<rparr>, snd cfs0)) = ExitOnError"
    by simp
  from Parse_loop_ExitOnError [OF this, of ParseInt] p have err: "err = None"
    by (auto simp: FlagSet_Parse_def)
  with r obtain cmds4 schema2 where
    p2: "IterFields True (fl, VStruct fs) (bind_field cfs) (cmds3, schema1)
           = Inr (cmds4, schema2)"
    and rr: "r = \<lparr>r_err = None,
               r_world = w\<lparr>pkg_cmds := cmds4, CommandLine := fst fh2, store := snd cfs\<rparr>,
               r_schema = pointee_update s schema2, r_cfs = Some (fst cfs)\<rparr>"
    by auto
  from p1 obtain fs1 where b1: "bind_list fl fh2 fs = Inr fs1" and s1: "schema1 = VStruct fs1"
    by (auto simp: shallow_pass split: sum.splits)
  from p2 have "IterFields True (fl, VStruct fs1) (bind_field cfs) (cmds3, VStruct fs1)
           = Inr (cmds4, schema2)"
    unfolding s1 IterFields_deep_same_walk [OF bind_list_same_walk [OF b1]] .
  then obtain fs2 where b2: "bind_groups fl cfs fs1 = Inr fs2" and s2: "schema2 = VStruct fs2"
    by (auto simp: deep_pass split: sum.splits)
  show thesis
  proof (rule that [of cmds1 "fst fh1" "snd fh1" ignored "fst fh2" "snd fh2" fs1 cmd cmds2 cmds3
        "fst cfs0" "snd cfs0" "fst cfs" "snd cfs" fs2])
    show "IterFields False (fl, VStruct fs) register_global
            (pkg_cmds w, (CommandLine w, store w)) = Inr (cmds1, fst fh1, snd fh1)"
      using g by simp
    show "FlagSet_Parse ParseInt (fst fh1, snd fh1) args = Inr (ignored, fst fh2, snd fh2)"
      using q by simp
    show "bind_list fl (fst fh2, snd fh2) fs = Inr fs1"
      using b1 by simp
    show "CommandFlagSet cmd (CommandFlags cmd (fs_args (fst fh2))) (fl, VStruct fs)
            (cmds2, snd fh2) = Inr (cmds3, fst cfs0, snd cfs0)"
      using c by simp
    show "FlagSet_Parse ParseInt (fst cfs0, snd cfs0) (CommandFlags cmd (fs_args (fst fh2)))
            = Inr (None, fst cfs, snd cfs)"
      using p err by simp
    show "bind_groups fl (fst cfs, snd cfs) fs1 = Inr fs2"
      using b2 by simp
  qed (simp_all add: rr s2)
qed

section \<open>The two flags of a field\<close>

text \<open>
  The flag set in which the flags of a field are defined: \<open>flag.CommandLine\<close> for a
  top-level field; for a field of a command group, \<open>cfs\<close> when it has been made for that
  group (\<open>CommandFlagSet\<close> gives it the name of the command, and defines in it the flags
  of the fields of the group with that name).
\<close>

fun field_scope :: "fieldref \<Rightarrow> Value \<Rightarrow> run \<Rightarrow> FlagSet option" where
  "field_scope (Top i) schema r = Some (CommandLine (r_world r))"
| "field_scope (Nested i j) schema r =
     (case (field_at (Top i) schema, r_cfs r) of
        (Some (gsf, g), Some cfs) \<Rightarrow>
          if exported gsf \<and> ToLower (Name gsf) = fs_name cfs then Some cfs else None
      | _ \<Rightarrow> None)"

lemma top_field_shared:
  assumes g: "IterFields False (fl, VStruct fs) register_global (cmds, (f0, h0))
                = Inr (cmds1, (f1, h1))"
    and q: "FlagSet_Parse ParseInt (f1, h1) args = Inr (ignored, (f2, h2))"
    and b1: "bind_list fl (f2, h2) fs = Inr fs1"
    and c: "CommandFlagSet cmd cmdFlags (fl, VStruct fs) (cmds2, h2) = Inr (cmds3, (c0, hc0))"
    and p: "FlagSet_Parse ParseInt (c0, hc0) cmdFlags = Inr (err, (cfs, hc))"
    and b2: "bind_groups fl (cfs, hc) fs1 = Inr fs2"
    and wf: "wf_FlagSet f0"
    and i: "i < length fs" "fs ! i = (sf, x)" and k: "scalar (Kind_of x)"
    and cs: "CanSet (Field_flag fl sf)"
  shows "\<exists>a. has_flags f2 sf (Kind_of x) a \<and>
           fs2 ! i = (sf, if \<exists>g \<in> set (Visit f2). names_match sf g
                          then of_any (Get hc (value_for (Kind_of x) a)) else x)"
proof -
  note reg = global_registration [OF g]
  from reg(2) [OF i k cs] obtain a where a: "a < next_addr h1" and hf1: "has_flags f1 sf (Kind_of x) a"
    by auto
  note e1 = FlagSet_Parse_effect [OF q]
  from reg(1) wf have "wf_FlagSet f1" by (simp add: reg_inv_def)
  from e1(3) [OF this] have wf2: "wf_FlagSet f2" .
  from hf1 e1(1) have hf2: "has_flags f2 sf (Kind_of x) a" by (simp add: has_flags_def)
  from a e1(2) have a2: "a < next_addr h2" by simp
  from bind_list_nth [OF b1 i] cs obtain x1 where
    l1: "length fs1 = length fs" and x1: "fs1 ! i = (sf, x1)"
    and v1: "bind_value h2 sf (Visit f2) x = Inr x1"
    by auto
  from k have ns: "Kind_of x \<noteq> reflect_Struct" by (auto simp: scalar_def)
  from bind_value_Kind [OF v1] ns have "Kind_of x1 \<noteq> reflect_Struct" by simp
  with bind_groups_nth [OF b2 _ x1] i(1) l1 have fs2: "fs2 ! i = (sf, x1)" by auto
  note creg = command_registration(1) [OF c]
  from creg a2 have "cells hc0 a = cells h2 a" by (simp add: reg_inv_def)
  moreover have "cells hc a = cells hc0 a"
  proof -
    have "\<forall>n g. map_of (formal c0) n = Some g \<longrightarrow> addr_of (flag_Value g) \<noteq> a"
    proof (intro allI impI)
      fix n g assume "map_of (formal c0) n = Some g"
      moreover from creg have "\<forall>n g. map_of (formal c0) n = Some g \<longrightarrow>
         map_of (formal (NewFlagSet cmd ExitOnError)) n = Some g \<or>
         (next_addr h2 \<le> addr_of (flag_Value g) \<and> addr_of (flag_Value g) < next_addr hc0)"
        by (simp add: reg_inv_def)
      moreover have "map_of (formal (NewFlagSet cmd ExitOnError)) n = None"
        by (simp add: NewFlagSet_def)
      ultimately have "next_addr h2 \<le> addr_of (flag_Value g)"
        by (metis option.discI)
      with a2 show "addr_of (flag_Value g) \<noteq> a" by simp
    qed
    with FlagSet_Parse_effect(4) [OF p] show ?thesis by blast
  qed
  ultimately have "cells hc (addr_of (value_for (Kind_of x) a))
      = cells h2 (addr_of (value_for (Kind_of x) a))"
    by simp
  from Get_cells [OF this]
  have "Get hc (value_for (Kind_of x) a) = Get h2 (value_for (Kind_of x) a)" .
  with bind_value_shared [OF wf2 hf2 k v1]
  have "x1 = (if \<exists>g \<in> set (Visit f2). names_match sf g
              then of_any (Get hc (value_for (Kind_of x) a)) else x)"
    by (simp only:)
  with fs2 have "fs2 ! i = (sf, if \<exists>g \<in> set (Visit f2). names_match sf g
                          then of_any (Get hc (value_for (Kind_of x) a)) else x)"
    by (simp only:)
  with hf2 show ?thesis by (intro exI [of _ a] conjI)
qed

lemma command_field_shared:
  assumes b1: "bind_list fl (f2, h2) fs = Inr fs1"
    and c: "CommandFlagSet cmd cmdFlags (fl, VStruct fs) (cmds2, h2) = Inr (cmds3, (c0, hc0))"
    and p: "FlagSet_Parse ParseInt (c0, hc0) cmdFlags = Inr (err, (cfs, hc))"
    and b2: "bind_groups fl (cfs, hc) fs1 = Inr fs2"
    and i: "i < length fs" "fs ! i = (gsf, VStruct nested)"
    and ci: "CanInterface (Field_flag fl gsf)" and name: "ToLower (Name gsf) = fs_name cfs"
    and j: "j < length nested" "nested ! j = (sf, x)" and k: "scalar (Kind_of x)"
    and cs: "CanSet (Field_flag (Field_flag fl gsf) sf)"
  shows "\<exists>a. has_flags cfs sf (Kind_of x) a \<and>
           (\<exists>nested'. fs2 ! i = (gsf, VStruct nested') \<and> j < length nested' \<and>
              nested' ! j = (sf, if \<exists>g \<in> set (Visit cfs). names_match sf g
                                 then of_any (Get hc (value_for (Kind_of x) a)) else x))"
proof -
  note creg = command_registration [OF c]
  note e = FlagSet_Parse_effect [OF p]
  from creg(1) have "fs_name c0 = cmd" by (simp add: reg_inv_def NewFlagSet_def)
  with FlagSet_Parse_fs_name [OF p] name have "ToLower (Name gsf) = cmd" by simp
  from creg(2) [OF i ci this j k cs] obtain a where "has_flags c0 sf (Kind_of x) a"
    by auto
  with e(1) have hf: "has_flags cfs sf (Kind_of x) a" by (simp add: has_flags_def)
  from creg(1) wf_NewFlagSet have "wf_FlagSet c0" by (simp add: reg_inv_def)
  from e(3) [OF this] have wf: "wf_FlagSet cfs" .
  from bind_list_nth [OF b1 i] obtain g1 where
    l1: "length fs1 = length fs" and g1: "fs1 ! i = (gsf, g1)"
    and v1: "if CanSet (Field_flag fl gsf)
          then bind_value h2 gsf (Visit f2) (VStruct nested) = Inr g1 else g1 = VStruct nested"
    by auto
  from v1 bind_value_struct [of "VStruct nested" h2 gsf "Visit f2"]
  have "g1 = VStruct nested" by (auto split: if_splits)
  with bind_groups_nth [OF b2 _ g1] i(1) l1 ci obtain nested' where
    fs2: "fs2 ! i = (gsf, VStruct nested')"
    and b: "bind_list (Field_flag fl gsf) (cfs, hc) nested = Inr nested'"
    by auto
  from bind_list_nth [OF b j] cs obtain x' where
    l: "length nested' = length nested" and x': "nested' ! j = (sf, x')"
    and v: "bind_value hc sf (Visit cfs) x = Inr x'"
    by auto
  from bind_value_shared [OF wf hf k v] x'
  have "nested' ! j = (sf, if \<exists>g \<in> set (Visit cfs). names_match sf g
                                 then of_any (Get hc (value_for (Kind_of x) a)) else x)"
    by (simp only:)
  moreover from l j(1) have "j < length nested'" by simp
  ultimately show ?thesis using fs2 hf
    by (intro exI [of _ a] exI [of _ nested'] conjI)
qed

text \<open>
  C3.  Take a call of \<open>Parse\<close> on a pointer to a schema that returns nil, and a bool, int or
  string field of the schema whose flags the call defines: an exported top-level field
  (scope \<open>flag.CommandLine\<close>) or an exported field of the command group that \<open>cfs\<close> has
  been made for.  (\<open>flag.CommandLine\<close> is taken well formed at the call, as package flag
  keeps it.)  Then the scope defines a flag under the field's lower-cased name and a flag
  under its short tag, and the two flags have one and the same value, a pointer to one
  variable.  And the field holds after \<open>Parse\<close> the content of that one variable when a flag
  with either of the two names has been set in the scope, no matter which of the two, and
  the value it held before when neither has been set.  So the long and the short spelling
  of a flag, given with the same value, leave the same value in the field.
\<close>

theorem Parse_long_short_shared:
  assumes "Parse ParseInt w (iface_ptr (Some schema)) = Inr r" and "r_err r = None"
    and "wf_FlagSet (CommandLine w)"
    and "field_at ref schema = Some (sf, x)" and "scalar (Kind_of x)" and "exported sf"
    and "field_scope ref schema r = Some f"
  shows "\<exists>long short.
           map_of (formal f) (ToLower (Name sf)) = Some long \<and>
           map_of (formal f) (Tag_Get (Tag sf) ''short'') = Some short \<and>
           flag_Value long = flag_Value short \<and>
           (\<exists>schema'. r_schema r = iface_ptr (Some schema') \<and>
              field_at ref schema' =
                Some (sf, if \<exists>g \<in> set (Visit f).
                               flag_Name g = ToLower (Name sf) \<or>
                               flag_Name g = Tag_Get (Tag sf) ''short''
                          then of_any (Get (store (r_world r)) (flag_Value long)) else x))"
proof -
  let ?k = "Kind_of x"
  from assms(2) Parse_returns [OF assms(1)] obtain fl fs where
    ind: "Indirect_ValueOf (iface_ptr (Some schema)) = Some (fl, VStruct fs)"
    and run: "Parse_struct ParseInt w (iface_ptr (Some schema)) (tl (os_Args w)) (fl, VStruct fs)
               = Inr r"
    by auto
  from ind have fl: "fl = \<lparr>flagAddr = True, flagRO = False\<rparr>" and schema: "schema = VStruct fs"
    by simp_all
  have shape: "\<exists>a fs2. has_flags f sf ?k a \<and> r_schema r = iface_ptr (Some (VStruct fs2)) \<and>
      field_at ref (VStruct fs2) =
        Some (sf, if \<exists>g \<in> set (Visit f). names_match sf g
                  then of_any (Get (store (r_world r)) (value_for ?k a)) else x)"
    using run
  proof (rule Parse_struct_stages)
    fix cmds1 f1 h1 ignored f2 h2 cmds2 cmd cmds3 c0 hc0 cfs hc fs1 fs2
    assume g: "IterFields False (fl, VStruct fs) register_global
                 (pkg_cmds w, (CommandLine w, store w)) = Inr (cmds1, (f1, h1))"
      and q: "FlagSet_Parse ParseInt (f1, h1) (tl (os_Args w)) = Inr (ignored, (f2, h2))"
      and b1: "bind_list fl (f2, h2) fs = Inr fs1"
      and c: "CommandFlagSet cmd (CommandFlags cmd (fs_args f2)) (fl, VStruct fs) (cmds2, h2)
                 = Inr (cmds3, (c0, hc0))"
      and p: "FlagSet_Parse ParseInt (c0, hc0) (CommandFlags cmd (fs_args f2))
                 = Inr (None, (cfs, hc))"
      and b2: "bind_groups fl (cfs, hc) fs1 = Inr fs2"
      and r: "CommandLine (r_world r) = f2" "store (r_world r) = hc" "r_cfs r = Some cfs"
      and rs: "r_schema r = pointee_update (iface_ptr (Some schema)) (VStruct fs2)"
    from list_all2_lengthD [OF bind_list_all2 [OF b1]]
      list_all2_lengthD [OF bind_groups_all2 [OF b2]]
    have len: "length fs2 = length fs" by simp
    from rs have rs': "r_schema r = iface_ptr (Some (VStruct fs2))" by simp
    show ?thesis
    proof (cases ref)
      case (Top i)
      with assms(4) schema have i: "i < length fs" "fs ! i = (sf, x)"
        by (auto split: if_splits)
      from Top assms(7) r(1) have f: "f = f2" by simp
      have cs: "CanSet (Field_flag fl sf)"
        using assms(6) by (simp add: fl CanSet_def Field_flag_def)
      from top_field_shared [OF g q b1 c p b2 assms(3) i assms(5) cs] obtain a where
        hf: "has_flags f2 sf ?k a"
        and v: "fs2 ! i = (sf, if \<exists>g \<in> set (Visit f2). names_match sf g
                          then of_any (Get hc (value_for ?k a)) else x)"
        by blast
      from v i(1) len have "field_at (Top i) (VStruct fs2) =
          Some (sf, if \<exists>g \<in> set (Visit f2). names_match sf g
                    then of_any (Get hc (value_for ?k a)) else x)"
        by simp
      with hf rs' show ?thesis
        unfolding Top f r(2) by (intro exI [of _ a] exI [of _ fs2] conjI)
    next
      case (Nested i j)
      with assms(4) schema have i: "i < length fs"
        and j: "j < length (struct_fields (snd (fs ! i)))"
          "struct_fields (snd (fs ! i)) ! j = (sf, x)"
        by (auto split: if_splits)
      obtain gsf g where gg: "fs ! i = (gsf, g)" by (cases "fs ! i")
      from j gg obtain nested where nested: "g = VStruct nested" by (cases g) simp_all
      from j gg nested have j': "j < length nested" "nested ! j = (sf, x)" by simp_all
      from Nested assms(7) r(3) schema i gg
      have f: "f = cfs" and e: "exported gsf" and name: "ToLower (Name gsf) = fs_name cfs"
        by (auto split: if_splits)
      have ci: "CanInterface (Field_flag fl gsf)"
        using e by (simp add: fl CanInterface_def Field_flag_def)
      have cs: "CanSet (Field_flag (Field_flag fl gsf) sf)"
        using e assms(6) by (simp add: fl CanSet_def Field_flag_def)
      from command_field_shared [OF b1 c p b2 i gg [unfolded nested] ci name j' assms(5) cs]
      obtain a nested' where
        hf: "has_flags cfs sf ?k a"
        and g': "fs2 ! i = (gsf, VStruct nested')" and jl: "j < length nested'"
        and v: "nested' ! j = (sf, if \<exists>g \<in> set (Visit cfs). names_match sf g
                                 then of_any (Get hc (value_for ?k a)) else x)"
        by blast
      from g' jl v i len have "field_at (Nested i j) (VStruct fs2) =
          Some (sf, if \<exists>g \<in> set (Visit cfs). names_match sf g
                    then of_any (Get hc (value_for ?k a)) else x)"
        by simp
      with hf rs' show ?thesis
        unfolding Nested f r(2) by (intro exI [of _ a] exI [of _ fs2] conjI)
    qed
  qed
  then obtain a fs2 where hf: "has_flags f sf ?k a"
    and rs: "r_schema r = iface_ptr (Some (VStruct fs2))"
    and v: "field_at ref (VStruct fs2) =
        Some (sf, if \<exists>g \<in> set (Visit f). names_match sf g
                  then of_any (Get (store (r_world r)) (value_for ?k a)) else x)"
    by blast
  from hf have l: "map_of (formal f) (ToLower (Name sf)) = Some (long_flag sf ?k a)"
    and s: "map_of (formal f) (Tag_Get (Tag sf) ''short'') = Some (short_flag sf ?k a)"
    by (simp_all add: has_flags_def)
  have same: "flag_Value (long_flag sf ?k a) = flag_Value (short_flag sf ?k a)"
    by (simp add: long_flag_def short_flag_def)
  have lv: "flag_Value (long_flag sf ?k a) = value_for ?k a"
    by (simp add: long_flag_def)
  from v have v': "field_at ref (VStruct fs2) =
      Some (sf, if \<exists>g \<in> set (Visit f).
                     flag_Name g = ToLower (Name sf) \<or> flag_Name g = Tag_Get (Tag sf) ''short''
                then of_any (Get (store (r_world r)) (flag_Value (long_flag sf ?k a))) else x)"
    unfolding names_match_def lv .
  show ?thesis
    apply (rule exI [of _ "long_flag sf ?k a"])
    apply (rule exI [of _ "short_flag sf ?k a"])
    apply (intro conjI l s same)
    apply (rule exI [of _ "VStruct fs2"])
    apply (intro conjI rs v')
    done
qed

lemma names_some: "map g xs = [n] \<Longrightarrow> \<exists>f \<in> set xs. g f = n"
  by (cases xs) auto

lemma wf_readme_world: "wf_FlagSet (CommandLine (readme_world args))"
  by (simp add: readme_world_def wf_NewFlagSet)

text \<open>
  On the schema of the README: \<open>-n 123\<close> and \<open>-number 123\<close> both leave 123 in \<open>Number\<close>,
  and \<open>foo -b x\<close> leaves \<open>x\<close> in \<open>Foo.BBB\<close>.
\<close>

theorem Parse_long_short_shared_witness:
  "\<exists>r1 r2 r3 s1 s2 s3.
     Parse ParseInt_example (readme_world [''-n'', ''123''])
       (iface_ptr (Some readme_Schema)) = Inr r1 \<and>
     Parse ParseInt_example (readme_world [''-number'', ''123''])
       (iface_ptr (Some readme_Schema)) = Inr r2 \<and>
     Parse ParseInt_example (readme_world [''foo'', ''-b'', ''x''])
       (iface_ptr (Some readme_Schema)) = Inr r3 \<and>
     map flag_Name (Visit (CommandLine (r_world r1))) = [''n''] \<and>
     map flag_Name (Visit (CommandLine (r_world r2))) = [''number''] \<and>
     map_option (\<lambda>cfs. map flag_Name (Visit cfs)) (r_cfs r3) = Some [''b''] \<and>
     r_schema r1 = iface_ptr (Some s1) \<and>
     r_schema r2 = iface_ptr (Some s2) \<and>
     r_schema r3 = iface_ptr (Some s3) \<and>
     field_at (Top 1) s1 = Some (field_of ''Number'' ''n'' ''a number field'' (VInt 123)) \<and>
     field_at (Top 1) s2 = Some (field_of ''Number'' ''n'' ''a number field'' (VInt 123)) \<and>
     field_at (Nested 3 1) s3 = Some (field_of ''BBB'' ''b'' ''does B'' (VString ''x''))"
proof -
  let ?s = "iface_ptr (Some readme_Schema)"
  let ?number = "\<lparr>Name = ''Number'', Tag = [(''short'', ''n''), (''usage'', ''a number field'')],
      exported = True, defined_type = False\<rparr>"
  let ?bbb = "\<lparr>Name = ''BBB'', Tag = [(''short'', ''b''), (''usage'', ''does B'')],
      exported = True, defined_type = False\<rparr>"
  have f1: "field_at (Top 1) readme_Schema = Some (?number, VInt 0)"
    and f3: "field_at (Nested 3 1) readme_Schema = Some (?bbb, VString '''')"
    by (simp_all add: readme_Schema_def field_of_def command_of_def)
  have k1: "scalar (Kind_of (VInt 0))" and k3: "scalar (Kind_of (VString ''''))"
    by (simp_all add: scalar_def)
  have e1: "exported ?number" and e3: "exported ?bbb" by simp_all
  have l1: "ToLower (Name ?number) = ''number''" "Tag_Get (Tag ?number) ''short'' = ''n''"
    and l3: "ToLower (Name ?bbb) = ''bbb''" "Tag_Get (Tag ?bbb) ''short'' = ''b''"
    by (simp_all add: ToLower_examples Tag_Get_def)

  have "case Parse ParseInt_example (readme_world [''-n'', ''123'']) ?s of
          Inl a \<Rightarrow> False
        | Inr r \<Rightarrow> r_err r = None \<and>
            map flag_Name (Visit (CommandLine (r_world r))) = [''n''] \<and>
            (case map_of (formal (CommandLine (r_world r))) ''number'' of
               None \<Rightarrow> False
             | Some lf \<Rightarrow> of_any (Get (store (r_world r)) (flag_Value lf)) = VInt 123)"
    by code_simp
  then obtain r1 lf1 where
    run1: "Parse ParseInt_example (readme_world [''-n'', ''123'']) ?s = Inr r1"
    and err1: "r_err r1 = None"
    and n1: "map flag_Name (Visit (CommandLine (r_world r1))) = [''n'']"
    and lf1: "map_of (formal (CommandLine (r_world r1))) ''number'' = Some lf1"
    and val1: "of_any (Get (store (r_world r1)) (flag_Value lf1)) = VInt 123"
    by (cases "Parse ParseInt_example (readme_world [''-n'', ''123'']) ?s")
       (simp_all split: option.splits)
  have sc1: "field_scope (Top 1) readme_Schema r1 = Some (CommandLine (r_world r1))" by simp
  from names_some [OF n1]
  have set1: "\<exists>g \<in> set (Visit (CommandLine (r_world r1))).
      flag_Name g = ToLower (Name ?number) \<or> flag_Name g = Tag_Get (Tag ?number) ''short''"
    unfolding l1 by blast
  from Parse_long_short_shared [OF run1 err1 wf_readme_world f1 k1 e1 sc1]
  obtain long1 s1 where
    "map_of (formal (CommandLine (r_world r1))) (ToLower (Name ?number)) = Some long1"
    and s1: "r_schema r1 = iface_ptr (Some s1)"
    and v1: "field_at (Top 1) s1 =
       Some (?number, if \<exists>g \<in> set (Visit (CommandLine (r_world r1))).
                  flag_Name g = ToLower (Name ?number) \<or>
                  flag_Name g = Tag_Get (Tag ?number) ''short''
             then of_any (Get (store (r_world r1)) (flag_Value long1)) else VInt 0)"
    by blast
  with lf1 have "long1 = lf1" unfolding l1 by simp
  with v1 set1 val1 have "field_at (Top 1) s1 = Some (?number, VInt 123)"
    by (simp only: if_True)
  then have q1: "field_at (Top 1) s1 =
      Some (field_of ''Number'' ''n'' ''a number field'' (VInt 123))"
    by (simp add: field_of_def)

  have "case Parse ParseInt_example (readme_world [''-number'', ''123'']) ?s of
          Inl a \<Rightarrow> False
        | Inr r \<Rightarrow> r_err r = None \<and>
            map flag_Name (Visit (CommandLine (r_world r))) = [''number''] \<and>
            (case map_of (formal (CommandLine (r_world r))) ''number'' of
               None \<Rightarrow> False
             | Some lf \<Rightarrow> of_any (Get (store (r_world r)) (flag_Value lf)) = VInt 123)"
    by code_simp
  then obtain r2 lf2 where
    run2: "Parse ParseInt_example (readme_world [''-number'', ''123'']) ?s = Inr r2"
    and err2: "r_err r2 = None"
    and n2: "map flag_Name (Visit (CommandLine (r_world r2))) = [''number'']"
    and lf2: "map_of (formal (CommandLine (r_world r2))) ''number'' = Some lf2"
    and val2: "of_any (Get (store (r_world r2)) (flag_Value lf2)) = VInt 123"
    by (cases "Parse ParseInt_example (readme_world [''-number'', ''123'']) ?s")
       (simp_all split: option.splits)
  have sc2: "field_scope (Top 1) readme_Schema r2 = Some (CommandLine (r_world r2))" by simp
  from names_some [OF n2]
  have set2: "\<exists>g \<in> set (Visit (CommandLine (r_world r2))).
      flag_Name g = ToLower (Name ?number) \<or> flag_Name g = Tag_Get (Tag ?number) ''short''"
    unfolding l1 by blast
  from Parse_long_short_shared [OF run2 err2 wf_readme_world f1 k1 e1 sc2]
  obtain long2 s2 where
    "map_of (formal (CommandLine (r_world r2))) (ToLower (Name ?number)) = Some long2"
    and s2: "r_schema r2 = iface_ptr (Some s2)"
    and v2: "field_at (Top 1) s2 =
       Some (?number, if \<exists>g \<in> set (Visit (CommandLine (r_world r2))).
                  flag_Name g = ToLower (Name ?number) \<or>
                  flag_Name g = Tag_Get (Tag ?number) ''short''
             then of_any (Get (store (r_world r2)) (flag_Value long2)) else VInt 0)"
    by blast
  with lf2 have "long2 = lf2" unfolding l1 by simp
  with v2 set2 val2 have "field_at (Top 1) s2 = Some (?number, VInt 123)"
    by (simp only: if_True)
  then have q2: "field_at (Top 1) s2 =
      Some (field_of ''Number'' ''n'' ''a number field'' (VInt 123))"
    by (simp add: field_of_def)

  have "case Parse ParseInt_example (readme_world [''foo'', ''-b'', ''x'']) ?s of
          Inl a \<Rightarrow> False
        | Inr r \<Rightarrow> r_err r = None \<and>
            (case field_scope (Nested 3 1) readme_Schema r of
               None \<Rightarrow> False
             | Some f \<Rightarrow>
                 r_cfs r = Some f \<and> map flag_Name (Visit f) = [''b''] \<and>
                 (case map_of (formal f) ''bbb'' of
                    None \<Rightarrow> False
                  | Some lf \<Rightarrow> of_any (Get (store (r_world r)) (flag_Value lf)) = VString ''x''))"
    by code_simp
  then obtain r3 f3' lf3 where
    run3: "Parse ParseInt_example (readme_world [''foo'', ''-b'', ''x'']) ?s = Inr r3"
    and err3: "r_err r3 = None"
    and sc3: "field_scope (Nested 3 1) readme_Schema r3 = Some f3'"
    and cfs3: "r_cfs r3 = Some f3'"
    and n3: "map flag_Name (Visit f3') = [''b'']"
    and lf3: "map_of (formal f3') ''bbb'' = Some lf3"
    and val3: "of_any (Get (store (r_world r3)) (flag_Value lf3)) = VString ''x''"
    by (cases "Parse ParseInt_example (readme_world [''foo'', ''-b'', ''x'']) ?s")
       (simp_all split: option.splits)
  from names_some [OF n3]
  have set3: "\<exists>g \<in> set (Visit f3').
      flag_Name g = ToLower (Name ?bbb) \<or> flag_Name g = Tag_Get (Tag ?bbb) ''short''"
    unfolding l3 by blast
  from Parse_long_short_shared [OF run3 err3 wf_readme_world f3 k3 e3 sc3]
  obtain long3 s3 where
    "map_of (formal f3') (ToLower (Name ?bbb)) = Some long3"
    and s3: "r_schema r3 = iface_ptr (Some s3)"
    and v3: "field_at (Nested 3 1) s3 =
       Some (?bbb, if \<exists>g \<in> set (Visit f3').
                  flag_Name g = ToLower (Name ?bbb) \<or>
                  flag_Name g = Tag_Get (Tag ?bbb) ''short''
             then of_any (Get (store (r_world r3)) (flag_Value long3)) else VString '''')"
    by blast
  with lf3 have "long3 = lf3" unfolding l3 by simp
  with v3 set3 val3 have "field_at (Nested 3 1) s3 = Some (?bbb, VString ''x'')"
    by (simp only: if_True)
  then have q3: "field_at (Nested 3 1) s3 = Some (field_of ''BBB'' ''b'' ''does B'' (VString ''x''))"
    by (simp add: field_of_def)
  from cfs3 n3 have n3': "map_option (\<lambda>cfs. map flag_Name (Visit cfs)) (r_cfs r3) = Some [''b'']"
    by simp

  show ?thesis
    apply (rule exI [of _ r1], rule exI [of _ r2], rule exI [of _ r3])
    apply (rule exI [of _ s1], rule exI [of _ s2], rule exI [of _ s3])
    apply (intro conjI run1 run2 run3 n1 n2 n3' s1 s2 s3 q1 q2 q3)
    done
qed

end
